theory Spec2Isabelle
  imports Main "HOL-Library.Word"
begin

section \<open>Device-side assertions (c10/cuda/CUDADeviceAssertion.h)\<close>

text \<open>
  The header defines two device functions: \<open>dstrcpy\<close>, a bounded string copy, and
  \<open>dsa_add_new_assertion_failure\<close>, which many threads of one kernel launch call
  concurrently to append a failure record to a shared buffer.

  The two compile-time constants the code uses are declared in a header that is not part
  of the sources at hand; they are parameters of the model throughout:
  \<^item> \<open>N\<close> stands for \<open>C10_CUDA_DEVICE_SIDE_MAX_STR_LEN\<close>,
  \<^item> \<open>C\<close> stands for \<open>C10_CUDA_DEVICE_SIDE_ASSERTION_COUNT\<close>.

  An access outside an array is undefined behaviour in C++. The model writes it down as
  the value \<open>Inl Out_of_bounds\<close>, so that every theorem showing a result \<open>Inr _\<close> also
  shows that no array was accessed outside its bounds.
\<close>

type_synonym u32 = "32 word"

text \<open>A C \<open>int\<close>: 32 bits, read as two's complement by \<open>sint\<close>.\<close>

type_synonym i32 = "32 word"

datatype fault = Out_of_bounds

subsection \<open>dstrcpy (lines 11 to 25)\<close>

text \<open>
  \<open>dst\<close> is the destination array and \<open>src\<close> the array the source pointer points into,
  both as lists of characters; they are distinct objects, as in every call of the header
  (the sources are string literals, the destinations fields of a record). The loop
  variable \<open>i\<close> never goes below zero and is a natural number; the comparisons with
  \<open>N - 1\<close> are made on integers, as in C, so that \<open>N = 0\<close> gives \<open>-1\<close>.

  The loop condition \<open>src[i] != '\0' && i < N - 1\<close> reads \<open>src[i]\<close> first, on every
  evaluation, also the last one.
\<close>

function dstrcpy_loop :: "nat \<Rightarrow> string \<Rightarrow> string \<Rightarrow> nat \<Rightarrow> fault + (string \<times> nat)" where
  "dstrcpy_loop N dst src i =
     (if \<not> i < length src then Inl Out_of_bounds
      else if src ! i \<noteq> CHR 0x00 \<and> int i < int N - 1 then
        (if \<not> i < length dst then Inl Out_of_bounds
         else dstrcpy_loop N (dst[i := src ! i]) src (i + 1))
      else Inr (dst, i))"
  by pat_completeness auto
termination
  by (relation "measure (\<lambda>(N, dst, src, i). N - i)") auto

declare dstrcpy_loop.simps [simp del]

definition dstrcpy :: "nat \<Rightarrow> string \<Rightarrow> string \<Rightarrow> fault + string" where
  "dstrcpy N dst src =
     (case dstrcpy_loop N dst src 0 of
        Inl f \<Rightarrow> Inl f
      | Inr (dst', i) \<Rightarrow>
          if int i = int N - 1 then
            (if dst' = [] then Inl Out_of_bounds else Inr (dst'[0 := CHR 0x00]))
          else Inr dst')"

subsection \<open>The shared buffer\<close>

text \<open>
  Modelled from the spec: the structures \<open>DeviceAssertionData\<close> and
  \<open>DeviceAssertionsData\<close> are declared in a header that is not among the sources. Their
  fields are the ones \<open>dsa_add_new_assertion_failure\<close> accesses, with the types the
  specification gives them: three fixed-capacity strings, an integer line number, an
  unsigned caller identifier, three unsigned block and thread coordinates each; two
  unsigned 32-bit counters and the array of \<open>C\<close> records.
\<close>

datatype dim3 = Dim3 (dim_x: u32) (dim_y: u32) (dim_z: u32)

record DeviceAssertionData =
  assertion_msg :: string
  filename :: string
  function_name :: string
  line_number :: i32
  caller :: u32
  block_id :: "u32 \<times> u32 \<times> u32"
  thread_id :: "u32 \<times> u32 \<times> u32"

record DeviceAssertionsData =
  assertion_count :: u32
  assertion_failure_written :: u32
  assertions :: "DeviceAssertionData list"

text \<open>Assignment to one element of a three-element array.\<close>

fun set_elem0 :: "'a \<Rightarrow> 'a \<times> 'a \<times> 'a \<Rightarrow> 'a \<times> 'a \<times> 'a" where
  "set_elem0 v (a, b, c) = (v, b, c)"

fun set_elem1 :: "'a \<Rightarrow> 'a \<times> 'a \<times> 'a \<Rightarrow> 'a \<times> 'a \<times> 'a" where
  "set_elem1 v (a, b, c) = (a, v, c)"

fun set_elem2 :: "'a \<Rightarrow> 'a \<times> 'a \<times> 'a \<Rightarrow> 'a \<times> 'a \<times> 'a" where
  "set_elem2 v (a, b, c) = (a, b, v)"

subsection \<open>dsa_add_new_assertion_failure (lines 27 to 81)\<close>

text \<open>
  The first parameter is a pointer that may be null; the others are gathered in a record.
\<close>

datatype buffer_ref = Nullptr | Buffer

record failure_args =
  assertion_msg0 :: string
  filename0 :: string
  function_name0 :: string
  line_number0 :: i32
  caller0 :: u32
  block_id0 :: dim3
  thread_id0 :: dim3

text \<open>
  Many threads run the function at once, so it is modelled as a step function on the
  shared memory and the program location of the stepping thread. One step is one
  statement that accesses the shared buffer, together with the local computation that
  follows it: an \<open>atomicAdd\<close>, one evaluation of the loop condition of line 58, or one
  of the statements of lines 66 to 76 (a call of \<open>dstrcpy\<close> is one step). The
  locations are
  \<^item> \<open>Entry\<close>: the call has not started (before line 39);
  \<^item> \<open>Spinning nid\<close>: at the loop of lines 58 to 60;
  \<^item> \<open>Writing nid k\<close>: about to run the \<open>k\<close>-th of the eleven statements of lines 66
    to 76 on \<open>assertions[nid]\<close>;
  \<^item> \<open>Publishing nid\<close>: about to run the \<open>atomicAdd\<close> of line 80;
  \<^item> \<open>Ret_disabled\<close>, \<open>Ret_dropped nid\<close>, \<open>Ret_recorded nid\<close>: returned at line 40,
    at line 62, at line 81.
\<close>

datatype location =
    Entry
  | Spinning u32
  | Writing u32 nat
  | Publishing u32
  | Ret_disabled
  | Ret_dropped u32
  | Ret_recorded u32

text \<open>
  The eleven statements of lines 66 to 76, numbered from 0 to 10, on the record \<open>self\<close>
  of line 65.
\<close>

definition write_field :: "nat \<Rightarrow> nat \<Rightarrow> failure_args \<Rightarrow> DeviceAssertionData \<Rightarrow> fault + DeviceAssertionData" where
  "write_field N k a self =
     (if k = 0 then
        (case dstrcpy N (assertion_msg self) (assertion_msg0 a) of
           Inl f \<Rightarrow> Inl f | Inr v \<Rightarrow> Inr (self\<lparr>assertion_msg := v\<rparr>))
      else if k = 1 then
        (case dstrcpy N (filename self) (filename0 a) of
           Inl f \<Rightarrow> Inl f | Inr v \<Rightarrow> Inr (self\<lparr>filename := v\<rparr>))
      else if k = 2 then
        (case dstrcpy N (function_name self) (function_name0 a) of
           Inl f \<Rightarrow> Inl f | Inr v \<Rightarrow> Inr (self\<lparr>function_name := v\<rparr>))
      else if k = 3 then Inr (self\<lparr>line_number := line_number0 a\<rparr>)
      else if k = 4 then Inr (self\<lparr>caller := caller0 a\<rparr>)
      else if k = 5 then Inr (self\<lparr>block_id := set_elem0 (dim_x (block_id0 a)) (block_id self)\<rparr>)
      else if k = 6 then Inr (self\<lparr>block_id := set_elem1 (dim_y (block_id0 a)) (block_id self)\<rparr>)
      else if k = 7 then Inr (self\<lparr>block_id := set_elem2 (dim_z (block_id0 a)) (block_id self)\<rparr>)
      else if k = 8 then Inr (self\<lparr>thread_id := set_elem0 (dim_x (thread_id0 a)) (thread_id self)\<rparr>)
      else if k = 9 then Inr (self\<lparr>thread_id := set_elem1 (dim_y (thread_id0 a)) (thread_id self)\<rparr>)
      else Inr (self\<lparr>thread_id := set_elem2 (dim_z (thread_id0 a)) (thread_id self)\<rparr>))"

text \<open>
  One step of a thread. \<open>atomicAdd\<close> returns the old value of the counter and adds one
  to it, modulo \<open>2 ^ 32\<close>. The comparison of line 46 is between the unsigned \<open>nid\<close> and
  the constant \<open>C\<close>. The array \<open>assertions\<close> has as many elements as the list has, and
  \<open>assertions[nid]\<close> with \<open>nid\<close> at or beyond that length is a fault. A thread that has
  returned takes no further step.
\<close>

definition thread_step ::
  "nat \<Rightarrow> nat \<Rightarrow> buffer_ref \<Rightarrow> failure_args \<Rightarrow> DeviceAssertionsData \<Rightarrow> location
     \<Rightarrow> fault + (DeviceAssertionsData \<times> location)" where
  "thread_step N C p a d l =
     (case l of
        Entry \<Rightarrow>
          (case p of
             Nullptr \<Rightarrow> Inr (d, Ret_disabled)
           | Buffer \<Rightarrow>
               (let nid = assertion_count d;
                    d' = d\<lparr>assertion_count := assertion_count d + 1\<rparr>
                in if C < unat nid then Inr (d', Spinning nid) else Inr (d', Writing nid 0)))
      | Spinning nid \<Rightarrow>
          if assertion_failure_written d < assertion_count d then Inr (d, Spinning nid)
          else Inr (d, Ret_dropped nid)
      | Writing nid k \<Rightarrow>
          if \<not> unat nid < length (assertions d) then Inl Out_of_bounds
          else
            (case write_field N k a (assertions d ! unat nid) of
               Inl f \<Rightarrow> Inl f
             | Inr self \<Rightarrow>
                 Inr (d\<lparr>assertions := (assertions d)[unat nid := self]\<rparr>,
                      if k < 10 then Writing nid (k + 1) else Publishing nid))
      | Publishing nid \<Rightarrow>
          Inr (d\<lparr>assertion_failure_written := assertion_failure_written d + 1\<rparr>, Ret_recorded nid)
      | Ret_disabled \<Rightarrow> Inr (d, l)
      | Ret_dropped nid \<Rightarrow> Inr (d, l)
      | Ret_recorded nid \<Rightarrow> Inr (d, l))"

definition returned :: "location \<Rightarrow> bool" where
  "returned l = (case l of Ret_disabled \<Rightarrow> True | Ret_dropped nid \<Rightarrow> True
                 | Ret_recorded nid \<Rightarrow> True | _ \<Rightarrow> False)"

subsection \<open>A kernel launch\<close>

text \<open>
  A launch fixes the two constants, the buffer pointer all threads pass (a kernel
  argument, see the note at line 86) and the arguments of each thread's call. Every
  thread calls the function at most once: the macro traps right after the call.

  The state of a launch is the shared memory, the location of every thread, and a
  history of the steps taken so far: the thread that stepped and the location it
  stepped from. The history is not read by any step.
\<close>

record launch =
  MAX_STR_LEN :: nat
  ASSERTION_COUNT :: nat
  assertions_data :: buffer_ref
  call_args :: "nat \<Rightarrow> failure_args"

record sys =
  mem :: DeviceAssertionsData
  thr :: "location list"
  history :: "(nat \<times> location) list"

definition sys_step :: "launch \<Rightarrow> nat \<Rightarrow> sys \<Rightarrow> fault + sys" where
  "sys_step L t s =
     (if t < length (thr s) \<and> \<not> returned (thr s ! t) then
        (case thread_step (MAX_STR_LEN L) (ASSERTION_COUNT L) (assertions_data L)
                (call_args L t) (mem s) (thr s ! t) of
           Inl f \<Rightarrow> Inl f
         | Inr (d, l) \<Rightarrow>
             Inr \<lparr>mem = d, thr = (thr s)[t := l], history = history s @ [(t, thr s ! t)]\<rparr>)
      else Inr s)"

text \<open>
  An interleaving is a schedule: the list of the threads that step, in order. \<open>run\<close>
  stops at the first fault.
\<close>

fun run :: "launch \<Rightarrow> nat list \<Rightarrow> sys \<Rightarrow> fault + sys" where
  "run L [] s = Inr s"
| "run L (t # ts) s = (case sys_step L t s of Inl f \<Rightarrow> Inl f | Inr s' \<Rightarrow> run L ts s')"

text \<open>The buffer as the host hands it over: zero-initialised, with \<open>T\<close> threads yet to call.\<close>

definition zero_record :: "nat \<Rightarrow> DeviceAssertionData" where
  "zero_record N =
     \<lparr>assertion_msg = replicate N (CHR 0x00), filename = replicate N (CHR 0x00),
      function_name = replicate N (CHR 0x00), line_number = 0, caller = 0,
      block_id = (0, 0, 0), thread_id = (0, 0, 0)\<rparr>"

definition zero_buffer :: "nat \<Rightarrow> nat \<Rightarrow> DeviceAssertionsData" where
  "zero_buffer N C =
     \<lparr>assertion_count = 0, assertion_failure_written = 0,
      assertions = replicate C (zero_record N)\<rparr>"

definition init_sys :: "launch \<Rightarrow> nat \<Rightarrow> sys" where
  "init_sys L T =
     \<lparr>mem = zero_buffer (MAX_STR_LEN L) (ASSERTION_COUNT L), thr = replicate T Entry,
      history = []\<rparr>"

subsection \<open>Observations on a launch\<close>

text \<open>
  A thread has \<open>called\<close> once it has left \<open>Entry\<close>; it is \<open>in_flight\<close> while it is
  about to write a field or to publish, \<open>recorded\<close> once it has returned at line 81,
  and \<open>spinning\<close> while it is in the loop of lines 58 to 60.
\<close>

definition called :: "location \<Rightarrow> bool" where
  "called l = (l \<noteq> Entry)"

definition in_flight :: "location \<Rightarrow> bool" where
  "in_flight l = (case l of Writing nid k \<Rightarrow> True | Publishing nid \<Rightarrow> True | _ \<Rightarrow> False)"

definition recorded :: "location \<Rightarrow> bool" where
  "recorded l = (case l of Ret_recorded nid \<Rightarrow> True | _ \<Rightarrow> False)"

definition spinning :: "location \<Rightarrow> bool" where
  "spinning l = (case l of Spinning nid \<Rightarrow> True | _ \<Rightarrow> False)"

definition calls :: "sys \<Rightarrow> nat" where
  "calls s = length (filter called (thr s))"

definition published :: "sys \<Rightarrow> nat" where
  "published s = length (filter recorded (thr s))"

definition writers :: "sys \<Rightarrow> nat" where
  "writers s = length (filter in_flight (thr s))"

text \<open>The counters and the locations of the threads after a run, or its fault.\<close>

definition outcome :: "fault + sys \<Rightarrow> fault + (u32 \<times> u32 \<times> location list)" where
  "outcome r =
     (case r of
        Inl f \<Rightarrow> Inl f
      | Inr s \<Rightarrow> Inr (assertion_count (mem s), assertion_failure_written (mem s), thr s))"

text \<open>The record array after a run (empty after a fault).\<close>

definition slots :: "fault + sys \<Rightarrow> DeviceAssertionData list" where
  "slots r = (case r of Inl f \<Rightarrow> [] | Inr s \<Rightarrow> assertions (mem s))"

text \<open>
  \<open>T\<close> threads that each run the \<open>atomicAdd\<close> of line 44 and no further step: the
  number of calls made and the value of \<open>assertion_count\<close> afterwards.
\<close>

definition count_after_calls :: "launch \<Rightarrow> nat \<Rightarrow> (nat \<times> u32) option" where
  "count_after_calls L T =
     (case run L [0..<T] (init_sys L T) of
        Inl f \<Rightarrow> None
      | Inr s \<Rightarrow> Some (calls s, assertion_count (mem s)))"

subsection \<open>Invariants of a launch\<close>

text \<open>
  The counters count threads: \<open>assertion_count\<close> the calls made,
  \<open>assertion_failure_written\<close> the threads that returned at line 81. The threads that
  passed the check of line 46 are the first \<open>C + 1\<close> callers, and a thread only spins
  once at least \<open>C + 2\<close> calls were made.
\<close>

definition counting_inv :: "nat \<Rightarrow> sys \<Rightarrow> bool" where
  "counting_inv C s \<longleftrightarrow>
     assertion_count (mem s) = of_nat (calls s)
   \<and> assertion_failure_written (mem s) = of_nat (published s)
   \<and> published s + writers s = min (calls s) (Suc C)
   \<and> (\<forall>i<length (thr s). spinning (thr s ! i) \<longrightarrow> C + 2 \<le> calls s)"

text \<open>
  The history agrees with the locations: only a thread that has returned at line 81 has
  run line 80, and a thread about to run the \<open>k\<close>-th statement of lines 66 to 76 has
  run the ones before it.
\<close>

definition history_inv :: "sys \<Rightarrow> bool" where
  "history_inv s \<longleftrightarrow>
     (\<forall>t m. (t, Publishing m) \<in> set (history s) \<longrightarrow> t < length (thr s) \<and> recorded (thr s ! t))
   \<and> (\<forall>t n k j. t < length (thr s) \<and> thr s ! t = Writing n k \<and> j < k
          \<longrightarrow> (t, Writing n j) \<in> set (history s))
   \<and> (\<forall>t n j. t < length (thr s) \<and> thr s ! t = Publishing n \<and> j < 11
          \<longrightarrow> (t, Writing n j) \<in> set (history s))"

definition ordered_history :: "(nat \<times> location) list \<Rightarrow> bool" where
  "ordered_history h \<longleftrightarrow>
     (\<forall>xs ys t n. h = xs @ (t, Publishing n) # ys \<longrightarrow>
        (\<forall>k<11. (t, Writing n k) \<in> set xs)
      \<and> (\<forall>m. (t, Publishing m) \<notin> set xs \<and> (t, Publishing m) \<notin> set ys))"

text \<open>
  The slot a thread has reserved, if any; the record after the first \<open>k\<close> of the eleven
  statements of lines 66 to 76 were run on a zero-initialised slot; and a record all of
  whose seven fields hold what the call was given (for a string, what \<open>dstrcpy\<close> makes
  of it in a zero-initialised field).
\<close>

definition nid_of :: "location \<Rightarrow> u32 option" where
  "nid_of l =
     (case l of
        Entry \<Rightarrow> None | Ret_disabled \<Rightarrow> None
      | Spinning nid \<Rightarrow> Some nid | Writing nid k \<Rightarrow> Some nid | Publishing nid \<Rightarrow> Some nid
      | Ret_dropped nid \<Rightarrow> Some nid | Ret_recorded nid \<Rightarrow> Some nid)"

primrec after_writes :: "nat \<Rightarrow> nat \<Rightarrow> failure_args \<Rightarrow> fault + DeviceAssertionData" where
  "after_writes N 0 a = Inr (zero_record N)"
| "after_writes N (Suc k) a =
     (case after_writes N k a of Inl f \<Rightarrow> Inl f | Inr self \<Rightarrow> write_field N k a self)"

definition complete_record :: "nat \<Rightarrow> failure_args \<Rightarrow> DeviceAssertionData \<Rightarrow> bool" where
  "complete_record N a self \<longleftrightarrow>
     dstrcpy N (replicate N (CHR 0x00)) (assertion_msg0 a) = Inr (assertion_msg self)
   \<and> dstrcpy N (replicate N (CHR 0x00)) (filename0 a) = Inr (filename self)
   \<and> dstrcpy N (replicate N (CHR 0x00)) (function_name0 a) = Inr (function_name self)
   \<and> line_number self = line_number0 a
   \<and> caller self = caller0 a
   \<and> block_id self = (dim_x (block_id0 a), dim_y (block_id0 a), dim_z (block_id0 a))
   \<and> thread_id self = (dim_x (thread_id0 a), dim_y (thread_id0 a), dim_z (thread_id0 a))"

text \<open>
  Every thread owns the slot it reserved: reserved indices are below the number of calls
  and differ between threads, slots not yet reserved are still zero, and the slot of a
  writing thread holds the fields that thread has written so far.
\<close>

definition slot_inv :: "launch \<Rightarrow> sys \<Rightarrow> bool" where
  "slot_inv L s \<longleftrightarrow>
     assertion_count (mem s) = of_nat (calls s)
   \<and> length (assertions (mem s)) = ASSERTION_COUNT L
   \<and> (\<forall>i. calls s \<le> i \<and> i < ASSERTION_COUNT L
          \<longrightarrow> assertions (mem s) ! i = zero_record (MAX_STR_LEN L))
   \<and> (\<forall>t n. t < length (thr s) \<and> nid_of (thr s ! t) = Some n \<longrightarrow> unat n < calls s)
   \<and> (\<forall>t t' n. t < length (thr s) \<and> t' < length (thr s) \<and> nid_of (thr s ! t) = Some n
          \<and> nid_of (thr s ! t') = Some n \<longrightarrow> t = t')
   \<and> (\<forall>t n k. t < length (thr s) \<and> thr s ! t = Writing n k \<longrightarrow>
          k \<le> 10 \<and> (unat n < ASSERTION_COUNT L \<longrightarrow>
             after_writes (MAX_STR_LEN L) k (call_args L t) = Inr (assertions (mem s) ! unat n)))
   \<and> (\<forall>t n. t < length (thr s) \<and> (thr s ! t = Publishing n \<or> thr s ! t = Ret_recorded n) \<longrightarrow>
          unat n < ASSERTION_COUNT L
        \<and> after_writes (MAX_STR_LEN L) 11 (call_args L t) = Inr (assertions (mem s) ! unat n))"

subsection \<open>An example launch\<close>

text \<open>
  Strings of at most seven characters with their terminators, and room for eight
  characters in each field of a record.
\<close>

definition example_args :: "nat \<Rightarrow> failure_args" where
  "example_args t =
     \<lparr>assertion_msg0 = ''x > 0'' @ [CHR 0x00], filename0 = ''k.cu'' @ [CHR 0x00],
      function_name0 = ''f'' @ [CHR 0x00], line_number0 = 42, caller0 = 7,
      block_id0 = Dim3 (of_nat t) 0 0, thread_id0 = Dim3 1 2 3\<rparr>"

definition example_launch :: "nat \<Rightarrow> buffer_ref \<Rightarrow> launch" where
  "example_launch C p =
     \<lparr>MAX_STR_LEN = 8, ASSERTION_COUNT = C, assertions_data = p, call_args = example_args\<rparr>"


section \<open>The string copy\<close>

subsection \<open>What the loop computes\<close>

text \<open>
  The loop stops at the first index \<open>m\<close> where the source holds a null character or
  where \<open>m = N - 1\<close>. It has then copied the \<open>m\<close> characters before that index and
  nothing else.
\<close>

lemma dstrcpy_loop_stop:
  assumes "m < length src" and "\<forall>j<m. src ! j \<noteq> CHR 0x00" and "m < N"
    and "src ! m = CHR 0x00 \<or> Suc m = N" and "m \<le> length dst" and "i \<le> m"
  shows "dstrcpy_loop N dst src i = Inr (take i dst @ take (m - i) (drop i src) @ drop m dst, m)"
  using assms
proof (induction "m - i" arbitrary: i dst)
  case 0
  then have "i = m" by simp
  with 0 show ?case by (auto simp: dstrcpy_loop.simps[of N dst src m])
next
  case (Suc d)
  then have lt: "i < m" by simp
  with Suc.prems have a: "i < length src" "src ! i \<noteq> CHR 0x00" "int i < int N - 1" "i < length dst"
    by auto
  have "dstrcpy_loop N dst src i = dstrcpy_loop N (dst[i := src ! i]) src (Suc i)"
    using a by (simp add: dstrcpy_loop.simps[of N dst src i])
  also have "\<dots> = Inr (take (Suc i) (dst[i := src ! i]) @ take (m - Suc i) (drop (Suc i) src)
                        @ drop m (dst[i := src ! i]), m)"
    using Suc.hyps(1)[of "Suc i" "dst[i := src ! i]"] Suc.hyps(2) Suc.prems lt by auto
  also have "take (Suc i) (dst[i := src ! i]) = take i dst @ [src ! i]"
    using a by (simp add: take_Suc_conv_app_nth)
  also have "drop m (dst[i := src ! i]) = drop m dst" using lt by simp
  also have "(take i dst @ [src ! i]) @ take (m - Suc i) (drop (Suc i) src) @ drop m dst
     = take i dst @ take (m - i) (drop i src) @ drop m dst"
  proof -
    have "take (m - i) (drop i src) = src ! i # take (m - Suc i) (drop (Suc i) src)"
      using a lt by (metis Cons_nth_drop_Suc Suc_diff_Suc take_Suc_Cons)
    then show ?thesis by simp
  qed
  finally show ?case .
qed

lemma dstrcpy_stop:
  assumes "m < length src" and "\<forall>j<m. src ! j \<noteq> CHR 0x00" and "m < N"
    and "src ! m = CHR 0x00 \<or> Suc m = N" and "N \<le> length dst"
  shows "dstrcpy N dst src =
           Inr (if Suc m = N then (take m src @ drop m dst)[0 := CHR 0x00]
                else take m src @ drop m dst)"
proof -
  define r where "r = take m src @ drop m dst"
  have loop: "dstrcpy_loop N dst src 0 = Inr (r, m)"
    using dstrcpy_loop_stop[OF assms(1-4), of dst 0] assms(3,5) by (simp add: r_def)
  have "length r = length dst" using assms(1,3,5) by (simp add: r_def)
  then have ne: "r \<noteq> []" using assms(3,5) by auto
  have "int m = int N - 1 \<longleftrightarrow> Suc m = N" by auto
  with loop ne have "dstrcpy N dst src = Inr (if Suc m = N then r[0 := CHR 0x00] else r)"
    by (simp add: dstrcpy_def)
  then show ?thesis by (simp only: r_def)
qed

lemma no_null_in_prefix:
  assumes "CHR 0x00 \<notin> set (take m src)" and "m \<le> length src"
  shows "\<forall>j<m. src ! j \<noteq> CHR 0x00"
proof (intro allI impI)
  fix j assume j: "j < m"
  with assms(2) have "take m src ! j \<in> set (take m src)" by (intro nth_mem) simp
  with j have "src ! j \<in> set (take m src)" by simp
  with assms(1) show "src ! j \<noteq> CHR 0x00" by metis
qed

lemma stop_index_exists:
  assumes "0 < N" and "CHR 0x00 \<in> set src \<or> N \<le> length src"
  obtains m where "m < length src" and "\<forall>j<m. src ! j \<noteq> CHR 0x00" and "m < N"
    and "src ! m = CHR 0x00 \<or> Suc m = N"
proof -
  define P where "P j \<longleftrightarrow> (j < length src \<and> src ! j = CHR 0x00) \<or> Suc j = N" for j
  define m where "m = (LEAST j. P j)"
  have PN: "P (N - 1)" using assms(1) by (simp add: P_def)
  then have Pm: "P m" unfolding m_def by (rule LeastI)
  have le: "m \<le> N - 1" unfolding m_def using PN by (rule Least_le)
  have below: "\<not> P j" if "j < m" for j using that not_less_Least unfolding m_def by blast
  have mlen: "m < length src"
  proof (cases "CHR 0x00 \<in> set src")
    case True
    then obtain k where k: "k < length src" "src ! k = CHR 0x00"
      by (auto simp: in_set_conv_nth)
    then have "P k" by (simp add: P_def)
    then have "m \<le> k" unfolding m_def by (rule Least_le)
    with k show ?thesis by simp
  next
    case False
    with assms(2) have "N \<le> length src" by blast
    with le assms(1) show ?thesis by simp
  qed
  have "\<forall>j<m. src ! j \<noteq> CHR 0x00"
  proof (intro allI impI)
    fix j assume "j < m"
    with below[of j] mlen show "src ! j \<noteq> CHR 0x00" by (auto simp: P_def)
  qed
  moreover have "m < N" using le assms(1) by simp
  moreover have "src ! m = CHR 0x00 \<or> Suc m = N" using Pm by (auto simp: P_def)
  ultimately show ?thesis using that mlen by blast
qed

text \<open>
  A source whose terminator comes before index \<open>N - 1\<close>: the characters before the
  terminator are copied, and the destination is left as it was from the terminator's
  index on. The terminator itself is not written.
\<close>

lemma dstrcpy_short_source:
  assumes "k < length src" and "src ! k = CHR 0x00" and "CHR 0x00 \<notin> set (take k src)"
    and "Suc k < N" and "N \<le> length dst"
  shows "dstrcpy N dst src = Inr (take k src @ drop k dst)"
proof -
  have "\<forall>j<k. src ! j \<noteq> CHR 0x00" using no_null_in_prefix[OF assms(3)] assms(1) by simp
  then show ?thesis using dstrcpy_stop[of k src N dst] assms by simp
qed

subsection \<open>Claims about dstrcpy\<close>

text \<open>
  C2. The claim: for a source whose terminator occurs before index \<open>N - 1\<close>, the copy
  includes the terminator, so that the destination is null-terminated by the copy
  itself. The loop of line 15 leaves at the terminator without copying it, and line 22
  does not apply, so the destination keeps what it held at and after that index. With
  \<open>N = 8\<close>, the source \<open>hi\<close> and a destination that holds eight \<open>X\<close>, the result is
  \<open>hiXXXXXX\<close>, with no null character in it.
\<close>

theorem dstrcpy_leaves_terminator_uncopied:
  "dstrcpy 8 ''XXXXXXXX'' (''hi'' @ [CHR 0x00]) = Inr ''hiXXXXXX''"
  by code_simp

text \<open>
  C3. For a source with no null character among its first \<open>N - 1\<close> characters, the loop
  copies exactly \<open>N - 1\<close> characters and stops with \<open>i = N - 1\<close>; line 23 then writes a
  null character at index 0 of the destination, so that the result is the empty string
  and not a truncated prefix. The source is an array of at least \<open>N\<close> characters (its
  terminator is at index \<open>N - 1\<close> or later) and the destination one of at least \<open>N\<close>.
\<close>

theorem dstrcpy_overlong_source_emptied:
  assumes "0 < N" and "N \<le> length src" and "CHR 0x00 \<notin> set (take (N - 1) src)"
    and "N \<le> length dst"
  shows "dstrcpy_loop N dst src 0 = Inr (take (N - 1) src @ drop (N - 1) dst, N - 1)
       \<and> dstrcpy N dst src = Inr ((take (N - 1) src @ drop (N - 1) dst)[0 := CHR 0x00])
       \<and> ((take (N - 1) src @ drop (N - 1) dst)[0 := CHR 0x00]) ! 0 = CHR 0x00"
proof -
  have a: "N - 1 < length src" "N - 1 < N" "src ! (N - 1) = CHR 0x00 \<or> Suc (N - 1) = N"
    using assms(1,2) by auto
  have nz: "\<forall>j<N - 1. src ! j \<noteq> CHR 0x00"
    using no_null_in_prefix[OF assms(3)] assms(2) by simp
  have l: "dstrcpy_loop N dst src 0 = Inr (take (N - 1) src @ drop (N - 1) dst, N - 1)"
    using dstrcpy_loop_stop[OF a(1) nz a(2,3), of dst 0] assms(4) by simp
  have d: "dstrcpy N dst src = Inr ((take (N - 1) src @ drop (N - 1) dst)[0 := CHR 0x00])"
    using dstrcpy_stop[OF a(1) nz a(2,3) assms(4)] assms(1) by simp
  define r where "r = take (N - 1) src @ drop (N - 1) dst"
  have "length r = length dst" using assms(1,2,4) by (simp add: r_def)
  then have "0 < length r" using assms(1,4) by linarith
  then have "r[0 := CHR 0x00] ! 0 = CHR 0x00" by simp
  then have z: "((take (N - 1) src @ drop (N - 1) dst)[0 := CHR 0x00]) ! 0 = CHR 0x00"
    by (simp only: r_def)
  from l d z show ?thesis by simp
qed

theorem dstrcpy_overlong_source_emptied_witness:
  "dstrcpy_loop 8 ''XXXXXXXX'' (''helloworld'' @ [CHR 0x00]) 0 = Inr (''hellowoX'', 7)
   \<and> dstrcpy 8 ''XXXXXXXX'' (''helloworld'' @ [CHR 0x00]) = Inr (CHR 0x00 # ''ellowoX'')"
proof -
  have h: "(0::nat) < 8" "8 \<le> length (''helloworld'' @ [CHR 0x00])"
    "CHR 0x00 \<notin> set (take (8 - 1) (''helloworld'' @ [CHR 0x00]))" "8 \<le> length ''XXXXXXXX''"
    by simp_all
  from dstrcpy_overlong_source_emptied[OF h] show ?thesis by simp
qed

text \<open>
  C9. \<open>dstrcpy\<close> returns no error and changes nothing but the destination, whose length
  it keeps: the model's only result is the new destination. It reads the source neither
  past its null terminator nor past \<open>N\<close> characters: whenever the source array holds a
  null character or has at least \<open>N\<close> characters, no access is out of bounds (this
  includes the array that ends with its terminator, and the array of exactly \<open>N\<close>
  characters), and the result is the same whatever follows the array in memory.
\<close>

theorem dstrcpy_succeeds_within_bounds:
  assumes "0 < N" and "N \<le> length dst"
    and "CHR 0x00 \<in> set src \<or> N \<le> length src"
  shows "\<exists>d. dstrcpy N dst src = Inr d \<and> length d = length dst
            \<and> (\<forall>rest. dstrcpy N dst (src @ rest) = Inr d)"
proof -
  obtain m where m: "m < length src" "\<forall>j<m. src ! j \<noteq> CHR 0x00" "m < N"
      "src ! m = CHR 0x00 \<or> Suc m = N"
    using stop_index_exists[OF assms(1,3)] by blast
  let ?d = "if Suc m = N then (take m src @ drop m dst)[0 := CHR 0x00]
            else take m src @ drop m dst"
  have 1: "dstrcpy N dst src = Inr ?d" using dstrcpy_stop[OF m assms(2)] .
  have 2: "length ?d = length dst" using m(1,3) assms(2) by simp
  have 3: "dstrcpy N dst (src @ rest) = Inr ?d" for rest
  proof -
    have "m < length (src @ rest)" using m(1) by simp
    moreover have "\<forall>j<m. (src @ rest) ! j \<noteq> CHR 0x00" using m(1,2) by (simp add: nth_append)
    moreover have "(src @ rest) ! m = CHR 0x00 \<or> Suc m = N" using m(1,4) by (simp add: nth_append)
    ultimately have "dstrcpy N dst (src @ rest) =
        Inr (if Suc m = N then (take m (src @ rest) @ drop m dst)[0 := CHR 0x00]
             else take m (src @ rest) @ drop m dst)"
      using dstrcpy_stop[of m "src @ rest" N dst] m(3) assms(2) by blast
    then show ?thesis using m(1) by simp
  qed
  from 1 2 3 show ?thesis by blast
qed

theorem dstrcpy_succeeds_within_bounds_witness:
  "\<exists>d. dstrcpy 8 ''XXXXXXXX'' (''hello'' @ [CHR 0x00]) = Inr d \<and> length d = length ''XXXXXXXX''
       \<and> (\<forall>rest. dstrcpy 8 ''XXXXXXXX'' ((''hello'' @ [CHR 0x00]) @ rest) = Inr d)"
proof -
  have h: "(0::nat) < 8" "8 \<le> length ''XXXXXXXX''"
    "CHR 0x00 \<in> set (''hello'' @ [CHR 0x00]) \<or> 8 \<le> length (''hello'' @ [CHR 0x00])"
    by simp_all
  from dstrcpy_succeeds_within_bounds[OF h] show ?thesis .
qed

section \<open>The failure recorder\<close>

subsection \<open>Runs and steps\<close>

lemma run_invariant:
  assumes "run L sched s = Inr s'" and "P s"
    and "\<And>t u u'. P u \<Longrightarrow> sys_step L t u = Inr u' \<Longrightarrow> P u'"
  shows "P s'"
  using assms(1,2)
proof (induction sched arbitrary: s)
  case Nil
  then show ?case by simp
next
  case (Cons t ts)
  then obtain u where u: "sys_step L t s = Inr u" "run L ts u = Inr s'"
    by (auto split: sum.splits)
  from assms(3)[OF Cons.prems(2) u(1)] have "P u" .
  with Cons.IH u(2) show ?case by blast
qed

lemma run_append:
  "run L (xs @ ys) s = (case run L xs s of Inl f \<Rightarrow> Inl f | Inr u \<Rightarrow> run L ys u)"
  by (induction xs arbitrary: s) (auto split: sum.splits)

lemma sys_step_cases [consumes 1, case_names idle disabled spin_enter write_enter spin_stay spin_exit write_slot publish]:
  assumes "sys_step L t s = Inr s'"
  obtains
    "s' = s" and "\<not> (t < length (thr s) \<and> \<not> returned (thr s ! t))"
  | "t < length (thr s)" and "thr s ! t = Entry" and "assertions_data L = Nullptr"
      and "s' = \<lparr>mem = mem s, thr = (thr s)[t := Ret_disabled],
                  history = history s @ [(t, Entry)]\<rparr>"
  | "t < length (thr s)" and "thr s ! t = Entry" and "assertions_data L = Buffer"
      and "ASSERTION_COUNT L < unat (assertion_count (mem s))"
      and "s' = \<lparr>mem = (mem s)\<lparr>assertion_count := assertion_count (mem s) + 1\<rparr>,
                  thr = (thr s)[t := Spinning (assertion_count (mem s))],
                  history = history s @ [(t, Entry)]\<rparr>"
  | "t < length (thr s)" and "thr s ! t = Entry" and "assertions_data L = Buffer"
      and "\<not> ASSERTION_COUNT L < unat (assertion_count (mem s))"
      and "s' = \<lparr>mem = (mem s)\<lparr>assertion_count := assertion_count (mem s) + 1\<rparr>,
                  thr = (thr s)[t := Writing (assertion_count (mem s)) 0],
                  history = history s @ [(t, Entry)]\<rparr>"
  | n where "t < length (thr s)" and "thr s ! t = Spinning n"
      and "assertion_failure_written (mem s) < assertion_count (mem s)"
      and "s' = \<lparr>mem = mem s, thr = (thr s)[t := Spinning n],
                  history = history s @ [(t, Spinning n)]\<rparr>"
  | n where "t < length (thr s)" and "thr s ! t = Spinning n"
      and "\<not> assertion_failure_written (mem s) < assertion_count (mem s)"
      and "s' = \<lparr>mem = mem s, thr = (thr s)[t := Ret_dropped n],
                  history = history s @ [(t, Spinning n)]\<rparr>"
  | n k self where "t < length (thr s)" and "thr s ! t = Writing n k"
      and "unat n < length (assertions (mem s))"
      and "write_field (MAX_STR_LEN L) k (call_args L t) (assertions (mem s) ! unat n) = Inr self"
      and "s' = \<lparr>mem = (mem s)\<lparr>assertions := (assertions (mem s))[unat n := self]\<rparr>,
                  thr = (thr s)[t := (if k < 10 then Writing n (k + 1) else Publishing n)],
                  history = history s @ [(t, Writing n k)]\<rparr>"
  | n where "t < length (thr s)" and "thr s ! t = Publishing n"
      and "s' = \<lparr>mem = (mem s)\<lparr>assertion_failure_written := assertion_failure_written (mem s) + 1\<rparr>,
                  thr = (thr s)[t := Ret_recorded n],
                  history = history s @ [(t, Publishing n)]\<rparr>"
proof (cases "t < length (thr s) \<and> \<not> returned (thr s ! t)")
  case False
  with assms have "s' = s" by (simp add: sys_step_def)
  with False that(1) show ?thesis by blast
next
  case True
  then have t: "t < length (thr s)" and nr: "\<not> returned (thr s ! t)" by simp_all
  show ?thesis
  proof (cases "thr s ! t")
    case Entry
    show ?thesis
    proof (cases "assertions_data L")
      case Nullptr
      with Entry True assms have "s' = \<lparr>mem = mem s, thr = (thr s)[t := Ret_disabled],
                  history = history s @ [(t, Entry)]\<rparr>"
        by (simp add: sys_step_def thread_step_def)
      with that(2) t Entry Nullptr show ?thesis by blast
    next
      case Buffer
      show ?thesis
      proof (cases "ASSERTION_COUNT L < unat (assertion_count (mem s))")
        case c: True
        with Buffer Entry True assms have "s' = \<lparr>mem = (mem s)\<lparr>assertion_count := assertion_count (mem s) + 1\<rparr>,
                  thr = (thr s)[t := Spinning (assertion_count (mem s))],
                  history = history s @ [(t, Entry)]\<rparr>"
          by (simp add: sys_step_def thread_step_def Let_def)
        with that(3) t Entry Buffer c show ?thesis by blast
      next
        case c: False
        with Buffer Entry True assms have "s' = \<lparr>mem = (mem s)\<lparr>assertion_count := assertion_count (mem s) + 1\<rparr>,
                  thr = (thr s)[t := Writing (assertion_count (mem s)) 0],
                  history = history s @ [(t, Entry)]\<rparr>"
          by (simp add: sys_step_def thread_step_def Let_def)
        with that(4) t Entry Buffer c show ?thesis by blast
      qed
    qed
  next
    case (Spinning n)
    show ?thesis
    proof (cases "assertion_failure_written (mem s) < assertion_count (mem s)")
      case c: True
      with Spinning True assms have "s' = \<lparr>mem = mem s, thr = (thr s)[t := Spinning n],
                  history = history s @ [(t, Spinning n)]\<rparr>"
        by (simp add: sys_step_def thread_step_def)
      with that(5) t Spinning c show ?thesis by blast
    next
      case c: False
      with Spinning True assms have "s' = \<lparr>mem = mem s, thr = (thr s)[t := Ret_dropped n],
                  history = history s @ [(t, Spinning n)]\<rparr>"
        by (simp add: sys_step_def thread_step_def)
      with that(6) t Spinning c show ?thesis by blast
    qed
  next
    case (Writing n k)
    with True assms have b: "unat n < length (assertions (mem s))"
      by (auto simp: sys_step_def thread_step_def split: if_splits)
    with Writing True assms obtain self where
      w: "write_field (MAX_STR_LEN L) k (call_args L t) (assertions (mem s) ! unat n) = Inr self"
      by (auto simp: sys_step_def thread_step_def split: sum.splits)
    with b Writing True assms have "s' = \<lparr>mem = (mem s)\<lparr>assertions := (assertions (mem s))[unat n := self]\<rparr>,
                  thr = (thr s)[t := (if k < 10 then Writing n (k + 1) else Publishing n)],
                  history = history s @ [(t, Writing n k)]\<rparr>"
      by (simp add: sys_step_def thread_step_def)
    with that(7) t Writing b w show ?thesis by blast
  next
    case (Publishing n)
    with True assms have "s' = \<lparr>mem = (mem s)\<lparr>assertion_failure_written := assertion_failure_written (mem s) + 1\<rparr>,
                  thr = (thr s)[t := Ret_recorded n],
                  history = history s @ [(t, Publishing n)]\<rparr>"
      by (simp add: sys_step_def thread_step_def)
    with that(8) t Publishing show ?thesis by blast
  next
    case Ret_disabled
    with nr show ?thesis by (simp add: returned_def)
  next
    case (Ret_dropped n)
    with nr show ?thesis by (simp add: returned_def)
  next
    case (Ret_recorded n)
    with nr show ?thesis by (simp add: returned_def)
  qed
qed

lemma count_update:
  "i < length xs \<Longrightarrow>
     length (filter P (xs[i := y])) + (if P (xs ! i) then 1 else 0)
       = length (filter P xs) + (if P y then 1 else 0)"
proof (induction xs arbitrary: i)
  case Nil
  then show ?case by simp
next
  case (Cons x xs)
  then show ?case by (cases i) auto
qed

lemma count_update_same:
  "i < length xs \<Longrightarrow> P (xs ! i) = P y \<Longrightarrow> length (filter P (xs[i := y])) = length (filter P xs)"
  using count_update[of i xs P y] by (simp split: if_splits)

lemma count_update_gain:
  "i < length xs \<Longrightarrow> \<not> P (xs ! i) \<Longrightarrow> P y \<Longrightarrow> length (filter P (xs[i := y])) = Suc (length (filter P xs))"
  using count_update[of i xs P y] by simp

lemma count_update_loss:
  "i < length xs \<Longrightarrow> P (xs ! i) \<Longrightarrow> \<not> P y \<Longrightarrow> Suc (length (filter P (xs[i := y]))) = length (filter P xs)"
  using count_update[of i xs P y] by simp

subsection \<open>The reservation counter\<close>

lemma count_step:
  assumes "assertions_data L = Buffer" and "sys_step L t s = Inr s'"
    and "assertion_count (mem s) = of_nat (calls s)"
  shows "assertion_count (mem s') = of_nat (calls s')"
  using assms(2)
proof (cases rule: sys_step_cases)
  case idle
  with assms(3) show ?thesis by simp
next
  case disabled
  with assms(1) show ?thesis by simp
next
  case spin_enter
  then show ?thesis using assms(3)
    by (simp add: calls_def count_update_gain called_def)
next
  case write_enter
  then show ?thesis using assms(3)
    by (simp add: calls_def count_update_gain called_def)
next
  case (spin_stay n)
  then show ?thesis using assms(3)
    by (simp add: calls_def count_update_same called_def)
next
  case (spin_exit n)
  then show ?thesis using assms(3)
    by (simp add: calls_def count_update_same called_def)
next
  case (write_slot n k self)
  then show ?thesis using assms(3)
    by (simp add: calls_def count_update_same called_def)
next
  case (publish n)
  then show ?thesis using assms(3)
    by (simp add: calls_def count_update_same called_def)
qed

lemma count_run:
  assumes "assertions_data L = Buffer" and "run L sched s = Inr s'"
    and "assertion_count (mem s) = of_nat (calls s)"
  shows "assertion_count (mem s') = of_nat (calls s')"
  using run_invariant[OF assms(2), of "\<lambda>u. assertion_count (mem u) = of_nat (calls u)"]
    count_step[OF assms(1)] assms(3) by blast

lemma count_init: "assertion_count (mem (init_sys L T)) = of_nat (calls (init_sys L T))"
  by (simp add: init_sys_def zero_buffer_def calls_def called_def)

lemma count_increment:
  assumes "assertions_data L = Buffer" and "sys_step L t u = Inr u'"
  shows "assertion_count (mem u') =
           assertion_count (mem u) + (if t < length (thr u) \<and> thr u ! t = Entry then 1 else 0)"
  using assms(2)
proof (cases rule: sys_step_cases)
  case idle
  then show ?thesis by (auto simp: returned_def)
next
  case disabled
  with assms(1) show ?thesis by simp
qed simp_all

lemma entry_step:
  assumes "assertions_data L = Buffer" and "t < length (thr s)" and "thr s ! t = Entry"
  shows "\<exists>s'. sys_step L t s = Inr s' \<and> length (thr s') = length (thr s)
            \<and> calls s' = Suc (calls s) \<and> (\<forall>i. i \<noteq> t \<longrightarrow> thr s' ! i = thr s ! i)"
proof -
  let ?l = "if ASSERTION_COUNT L < unat (assertion_count (mem s))
            then Spinning (assertion_count (mem s)) else Writing (assertion_count (mem s)) 0"
  let ?s = "\<lparr>mem = (mem s)\<lparr>assertion_count := assertion_count (mem s) + 1\<rparr>,
             thr = (thr s)[t := ?l], history = history s @ [(t, Entry)]\<rparr>"
  have "sys_step L t s = Inr ?s"
    using assms by (simp add: sys_step_def thread_step_def returned_def Let_def)
  moreover have "calls ?s = Suc (calls s)"
    using assms(2,3) by (simp add: calls_def count_update_gain called_def)
  ultimately show ?thesis by auto
qed

lemma entry_sweep:
  assumes buf: "assertions_data L = Buffer"
  shows "b \<le> length (thr s) \<Longrightarrow> \<forall>t. a \<le> t \<and> t < b \<longrightarrow> thr s ! t = Entry \<Longrightarrow>
         \<exists>s'. run L [a..<b] s = Inr s' \<and> calls s' = calls s + (b - a)"
proof (induction "b - a" arbitrary: a s)
  case 0
  then show ?case by simp
next
  case (Suc n)
  then have ab: "a < b" by simp
  with Suc.prems have "a < length (thr s)" "thr s ! a = Entry" by simp_all
  from entry_step[OF buf this] obtain s1 where s1: "sys_step L a s = Inr s1"
    "length (thr s1) = length (thr s)" "calls s1 = Suc (calls s)"
    "\<forall>i. i \<noteq> a \<longrightarrow> thr s1 ! i = thr s ! i" by blast
  have "n = b - Suc a" using Suc.hyps(2) by simp
  moreover have "b \<le> length (thr s1)" using s1(2) Suc.prems(1) by simp
  moreover have "\<forall>t. Suc a \<le> t \<and> t < b \<longrightarrow> thr s1 ! t = Entry"
    using s1(4) Suc.prems(2) by auto
  ultimately obtain s' where s': "run L [Suc a..<b] s1 = Inr s'" "calls s' = calls s1 + (b - Suc a)"
    using Suc.hyps(1)[of "Suc a" s1] by blast
  have "run L [a..<b] s = Inr s'" using ab s1(1) s'(1) by (simp add: upt_conv_Cons)
  moreover have "calls s' = calls s + (b - a)" using s'(2) s1(3) ab by simp
  ultimately show ?case by blast
qed

lemma count_after_calls_eq:
  assumes "assertions_data L = Buffer"
  shows "count_after_calls L T = Some (T, of_nat T)"
proof -
  have "T \<le> length (thr (init_sys L T))"
    and "\<forall>t. 0 \<le> t \<and> t < T \<longrightarrow> thr (init_sys L T) ! t = Entry"
    by (simp_all add: init_sys_def)
  from entry_sweep[OF assms this] obtain s where
    s: "run L [0..<T] (init_sys L T) = Inr s" "calls s = calls (init_sys L T) + (T - 0)"
    by blast
  have "calls (init_sys L T) = 0" by (simp add: init_sys_def calls_def called_def)
  with s(2) have c: "calls s = T" by simp
  have "assertion_count (mem s) = of_nat (calls s)" using count_run[OF assms s(1) count_init] .
  with c s(1) show ?thesis by (simp add: count_after_calls_def)
qed

subsection \<open>Who passes the check of line 46\<close>

lemma calls_less:
  assumes "t < length (thr s)" and "thr s ! t = Entry"
  shows "calls s < length (thr s)"
proof -
  have "thr s ! t \<in> set (thr s)" using assms(1) by simp
  moreover have "\<not> called (thr s ! t)" using assms(2) by (simp add: called_def)
  ultimately show ?thesis unfolding calls_def by (rule length_filter_less)
qed

lemma unat_count:
  assumes "assertion_count (mem s) = of_nat (calls s)" and "calls s < 2 ^ 32"
  shows "unat (assertion_count (mem s)) = calls s"
  using assms by (simp add: unat_of_nat)

lemma counting_step:
  assumes buf: "assertions_data L = Buffer" and len: "length (thr s) \<le> 2 ^ 32"
    and step: "sys_step L t s = Inr s'"
    and inv: "counting_inv (ASSERTION_COUNT L) s"
  shows "counting_inv (ASSERTION_COUNT L) s' \<and> length (thr s') = length (thr s)"
  using step
proof (cases rule: sys_step_cases)
  case idle
  with inv show ?thesis by simp
next
  case disabled
  with buf show ?thesis by simp
next
  case spin_enter
  have c: "calls s < 2 ^ 32" using calls_less[OF spin_enter(1,2)] len by simp
  have u: "unat (assertion_count (mem s)) = calls s"
    using unat_count inv c by (simp add: counting_inv_def)
  have 1: "calls s' = Suc (calls s)"
    using spin_enter by (simp add: calls_def count_update_gain called_def)
  have 2: "published s' = published s"
    using spin_enter by (simp add: published_def count_update_same recorded_def)
  have 3: "writers s' = writers s"
    using spin_enter by (simp add: writers_def count_update_same in_flight_def)
  have 4: "mem s' = (mem s)\<lparr>assertion_count := assertion_count (mem s) + 1\<rparr>"
    and 5: "length (thr s') = length (thr s)"
    using spin_enter by simp_all
  have 6: "ASSERTION_COUNT L < calls s" using spin_enter(4) u by simp
  show ?thesis
    using inv 6 unfolding counting_inv_def 1 2 3 4 5 by auto
next
  case write_enter
  have c: "calls s < 2 ^ 32" using calls_less[OF write_enter(1,2)] len by simp
  have u: "unat (assertion_count (mem s)) = calls s"
    using unat_count inv c by (simp add: counting_inv_def)
  have 1: "calls s' = Suc (calls s)"
    using write_enter by (simp add: calls_def count_update_gain called_def)
  have 2: "published s' = published s"
    using write_enter by (simp add: published_def count_update_same recorded_def)
  have 3: "writers s' = Suc (writers s)"
    using write_enter by (simp add: writers_def count_update_gain in_flight_def)
  have 4: "mem s' = (mem s)\<lparr>assertion_count := assertion_count (mem s) + 1\<rparr>"
    and 5: "length (thr s') = length (thr s)"
    using write_enter by simp_all
  have 6: "calls s \<le> ASSERTION_COUNT L" using write_enter(4) u by simp
  have 7: "\<forall>i<length (thr s). spinning (thr s' ! i) \<longrightarrow> spinning (thr s ! i)"
    using write_enter by (auto simp: nth_list_update spinning_def)
  show ?thesis
    using inv 6 7 unfolding counting_inv_def 1 2 3 4 5 by auto
next
  case (spin_stay n)
  have 1: "calls s' = calls s"
    using spin_stay by (simp add: calls_def count_update_same called_def)
  have 2: "published s' = published s"
    using spin_stay by (simp add: published_def count_update_same recorded_def)
  have 3: "writers s' = writers s"
    using spin_stay by (simp add: writers_def count_update_same in_flight_def)
  have 4: "mem s' = mem s" and 5: "length (thr s') = length (thr s)"
    using spin_stay by simp_all
  have 7: "\<forall>i<length (thr s). spinning (thr s' ! i) \<longrightarrow> spinning (thr s ! i)"
    using spin_stay by (auto simp: nth_list_update spinning_def)
  show ?thesis
    using inv 7 unfolding counting_inv_def 1 2 3 4 5 by auto
next
  case (spin_exit n)
  have 1: "calls s' = calls s"
    using spin_exit by (simp add: calls_def count_update_same called_def)
  have 2: "published s' = published s"
    using spin_exit by (simp add: published_def count_update_same recorded_def)
  have 3: "writers s' = writers s"
    using spin_exit by (simp add: writers_def count_update_same in_flight_def)
  have 4: "mem s' = mem s" and 5: "length (thr s') = length (thr s)"
    using spin_exit by simp_all
  have 7: "\<forall>i<length (thr s). spinning (thr s' ! i) \<longrightarrow> spinning (thr s ! i)"
    using spin_exit by (auto simp: nth_list_update spinning_def)
  show ?thesis
    using inv 7 unfolding counting_inv_def 1 2 3 4 5 by auto
next
  case (write_slot n k self)
  have 1: "calls s' = calls s"
    using write_slot by (simp add: calls_def count_update_same called_def)
  have 2: "published s' = published s"
    using write_slot by (simp add: published_def count_update_same recorded_def)
  have 3: "writers s' = writers s"
    using write_slot by (simp add: writers_def count_update_same in_flight_def)
  have 4: "assertion_count (mem s') = assertion_count (mem s)"
      "assertion_failure_written (mem s') = assertion_failure_written (mem s)"
    and 5: "length (thr s') = length (thr s)"
    using write_slot by simp_all
  have 7: "\<forall>i<length (thr s). spinning (thr s' ! i) \<longrightarrow> spinning (thr s ! i)"
    using write_slot by (auto simp: nth_list_update spinning_def)
  show ?thesis
    using inv 7 unfolding counting_inv_def 1 2 3 4 5 by auto
next
  case (publish n)
  have 1: "calls s' = calls s"
    using publish by (simp add: calls_def count_update_same called_def)
  have 2: "published s' = Suc (published s)"
    using publish by (simp add: published_def count_update_gain recorded_def)
  have 3: "Suc (writers s') = writers s"
    using publish by (simp add: writers_def count_update_loss in_flight_def)
  have 4: "assertion_count (mem s') = assertion_count (mem s)"
      "assertion_failure_written (mem s') = assertion_failure_written (mem s) + 1"
    and 5: "length (thr s') = length (thr s)"
    using publish by simp_all
  have 7: "\<forall>i<length (thr s). spinning (thr s' ! i) \<longrightarrow> spinning (thr s ! i)"
    using publish by (auto simp: nth_list_update spinning_def)
  show ?thesis
    using inv 7 3 unfolding counting_inv_def 1 2 4 5 by auto
qed

lemma counting_init: "counting_inv C (init_sys L T)"
  by (simp add: counting_inv_def init_sys_def zero_buffer_def calls_def published_def
      writers_def called_def recorded_def in_flight_def spinning_def)

lemma counting_run:
  assumes "assertions_data L = Buffer" and "length (thr s) \<le> 2 ^ 32"
    and "run L sched s = Inr s'" and "counting_inv (ASSERTION_COUNT L) s"
  shows "counting_inv (ASSERTION_COUNT L) s' \<and> length (thr s') = length (thr s)"
proof -
  let ?P = "\<lambda>u. counting_inv (ASSERTION_COUNT L) u \<and> length (thr u) = length (thr s)"
  have "?P s'"
  proof (rule run_invariant[OF assms(3), of ?P])
    show "?P s" using assms(4) by simp
  next
    fix t u u'
    assume "?P u" and "sys_step L t u = Inr u'"
    then show "?P u'" using counting_step[OF assms(1) _ \<open>sys_step L t u = Inr u'\<close>, of ] assms(2)
      by simp
  qed
  then show ?thesis .
qed

lemma spin_condition:
  assumes inv: "counting_inv C s" and len: "length (thr s) < 2 ^ 32"
    and t: "t < length (thr s)" and sp: "thr s ! t = Spinning n"
  shows "assertion_failure_written (mem s) < assertion_count (mem s)"
proof -
  have big: "C + 2 \<le> calls s"
    using inv t sp by (auto simp: counting_inv_def spinning_def)
  have "calls s \<le> length (thr s)" by (simp add: calls_def)
  with len have "calls s < 2 ^ 32" by simp
  then have c: "unat (assertion_count (mem s)) = calls s"
    using inv by (simp add: counting_inv_def unat_of_nat)
  have "published s \<le> Suc C" using inv by (auto simp: counting_inv_def)
  moreover have "unat (assertion_failure_written (mem s)) \<le> published s"
    using inv by (simp add: counting_inv_def unat_of_nat)
  ultimately have "unat (assertion_failure_written (mem s)) < unat (assertion_count (mem s))"
    using big c by simp
  then show ?thesis by (simp add: word_less_nat_alt)
qed

lemma spin_forever_step:
  assumes buf: "assertions_data L = Buffer" and len: "length (thr s) < 2 ^ 32"
    and inv: "counting_inv (ASSERTION_COUNT L) s" and sp: "thr s ! t = Spinning n"
    and step: "sys_step L t' s = Inr s'"
  shows "thr s' ! t = Spinning n"
proof (cases "t' = t \<and> t < length (thr s)")
  case True
  then have w: "assertion_failure_written (mem s) < assertion_count (mem s)"
    using spin_condition[OF inv len _ sp] by simp
  from step True sp w show ?thesis
    by (cases rule: sys_step_cases) simp_all
next
  case False
  from step False sp show ?thesis
    by (cases rule: sys_step_cases) (auto simp: nth_list_update)
qed

subsection \<open>The order of a thread's steps\<close>

lemma snoc_eq_split:
  "zs @ [e] = xs @ a # ys \<longleftrightarrow>
     (ys = [] \<and> zs = xs \<and> e = a) \<or> (\<exists>ys'. ys = ys' @ [e] \<and> zs = xs @ a # ys')"
  by (cases ys rule: rev_cases) auto

lemma step_shape:
  assumes "sys_step L t s = Inr s'"
  shows "s' = s \<or>
         (t < length (thr s) \<and> \<not> returned (thr s ! t) \<and> length (thr s') = length (thr s)
          \<and> history s' = history s @ [(t, thr s ! t)]
          \<and> (\<forall>i. i \<noteq> t \<longrightarrow> thr s' ! i = thr s ! i)
          \<and> (case thr s ! t of
                Entry \<Rightarrow> (\<forall>n k. thr s' ! t = Writing n k \<longrightarrow> k = 0) \<and> (\<forall>n. thr s' ! t \<noteq> Publishing n)
              | Spinning n \<Rightarrow> (\<forall>m k. thr s' ! t \<noteq> Writing m k) \<and> (\<forall>m. thr s' ! t \<noteq> Publishing m)
              | Writing n k \<Rightarrow> thr s' ! t = (if k < 10 then Writing n (k + 1) else Publishing n)
              | Publishing n \<Rightarrow> thr s' ! t = Ret_recorded n
              | _ \<Rightarrow> False))"
  using assms
  by (cases rule: sys_step_cases) (auto simp: returned_def)

lemma history_step:
  assumes step: "sys_step L t s = Inr s'" and inv: "history_inv s"
  shows "history_inv s'"
proof -
  from step_shape[OF step] show ?thesis
  proof
    assume "s' = s" with inv show ?thesis by simp
  next
    assume sh: "t < length (thr s) \<and> \<not> returned (thr s ! t) \<and> length (thr s') = length (thr s)
          \<and> history s' = history s @ [(t, thr s ! t)]
          \<and> (\<forall>i. i \<noteq> t \<longrightarrow> thr s' ! i = thr s ! i)
          \<and> (case thr s ! t of
                Entry \<Rightarrow> (\<forall>n k. thr s' ! t = Writing n k \<longrightarrow> k = 0) \<and> (\<forall>n. thr s' ! t \<noteq> Publishing n)
              | Spinning n \<Rightarrow> (\<forall>m k. thr s' ! t \<noteq> Writing m k) \<and> (\<forall>m. thr s' ! t \<noteq> Publishing m)
              | Writing n k \<Rightarrow> thr s' ! t = (if k < 10 then Writing n (k + 1) else Publishing n)
              | Publishing n \<Rightarrow> thr s' ! t = Ret_recorded n
              | _ \<Rightarrow> False)"
    then have t: "t < length (thr s)" and nr: "\<not> returned (thr s ! t)"
      and len: "length (thr s') = length (thr s)"
      and h: "history s' = history s @ [(t, thr s ! t)]"
      and oth: "\<And>i. i \<noteq> t \<Longrightarrow> thr s' ! i = thr s ! i"
      by simp_all
    from inv have A: "\<And>u m. (u, Publishing m) \<in> set (history s) \<Longrightarrow> u < length (thr s) \<and> recorded (thr s ! u)"
      and B: "\<And>u n k j. u < length (thr s) \<Longrightarrow> thr s ! u = Writing n k \<Longrightarrow> j < k \<Longrightarrow> (u, Writing n j) \<in> set (history s)"
      and B': "\<And>u n j. u < length (thr s) \<Longrightarrow> thr s ! u = Publishing n \<Longrightarrow> j < 11 \<Longrightarrow> (u, Writing n j) \<in> set (history s)"
      unfolding history_inv_def by blast+
    have nrec: "\<not> recorded (thr s ! t)" using nr by (auto simp: returned_def recorded_def split: location.splits)
    have A': "u < length (thr s') \<and> recorded (thr s' ! u)" if "(u, Publishing m) \<in> set (history s')" for u m
    proof (cases "(u, Publishing m) \<in> set (history s)")
      case True
      from A[OF True] nrec have "u \<noteq> t" by auto
      with A[OF True] oth len show ?thesis by simp
    next
      case False
      with that h have "u = t" "thr s ! t = Publishing m" by auto
      with sh show ?thesis by (simp add: recorded_def)
    qed
    have B1: "(u, Writing n j) \<in> set (history s')"
      if "u < length (thr s')" "thr s' ! u = Writing n k" "j < k" for u n k j
    proof (cases "u = t")
      case False
      with that oth len B[of u n k j] h show ?thesis by simp
    next
      case True
      show ?thesis
      proof (cases "thr s ! t")
        case Entry
        with sh that True show ?thesis by auto
      next
        case (Spinning x)
        with sh that True show ?thesis by auto
      next
        case (Writing n0 k0)
        with sh that True have e: "n = n0" "k = k0 + 1" by (auto split: if_splits)
        show ?thesis
        proof (cases "j < k0")
          case True
          with B[OF t Writing True] e h \<open>u = t\<close> show ?thesis by simp
        next
          case False
          with e that have "j = k0" by simp
          with e h Writing \<open>u = t\<close> show ?thesis by simp
        qed
      next
        case (Publishing x)
        with sh that True show ?thesis by auto
      next
        case Ret_disabled
        with sh show ?thesis by simp
      next
        case (Ret_dropped x)
        with sh show ?thesis by simp
      next
        case (Ret_recorded x)
        with sh show ?thesis by simp
      qed
    qed
    have B2: "(u, Writing n j) \<in> set (history s')"
      if "u < length (thr s')" "thr s' ! u = Publishing n" "j < 11" for u n j
    proof (cases "u = t")
      case False
      with that oth len B'[of u n j] h show ?thesis by simp
    next
      case True
      show ?thesis
      proof (cases "thr s ! t")
        case Entry
        with sh that True show ?thesis by auto
      next
        case (Spinning x)
        with sh that True show ?thesis by auto
      next
        case (Writing n0 k0)
        with sh that True have e: "n = n0" "\<not> k0 < 10" by (auto split: if_splits)
        show ?thesis
        proof (cases "j < k0")
          case True
          with B[OF t Writing True] e h \<open>u = t\<close> show ?thesis by simp
        next
          case False
          with e that have "j = k0" by simp
          with e h Writing \<open>u = t\<close> show ?thesis by simp
        qed
      next
        case (Publishing x)
        with sh that True show ?thesis by auto
      next
        case Ret_disabled
        with sh show ?thesis by simp
      next
        case (Ret_dropped x)
        with sh show ?thesis by simp
      next
        case (Ret_recorded x)
        with sh show ?thesis by simp
      qed
    qed
    from A' B1 B2 show ?thesis unfolding history_inv_def by blast
  qed
qed

lemma ordered_step:
  assumes step: "sys_step L t s = Inr s'" and inv: "history_inv s"
    and ord: "ordered_history (history s)"
  shows "ordered_history (history s')"
proof -
  from step_shape[OF step] show ?thesis
  proof
    assume "s' = s" with ord show ?thesis by simp
  next
    assume sh: "t < length (thr s) \<and> \<not> returned (thr s ! t) \<and> length (thr s') = length (thr s)
          \<and> history s' = history s @ [(t, thr s ! t)]
          \<and> (\<forall>i. i \<noteq> t \<longrightarrow> thr s' ! i = thr s ! i)
          \<and> (case thr s ! t of
                Entry \<Rightarrow> (\<forall>n k. thr s' ! t = Writing n k \<longrightarrow> k = 0) \<and> (\<forall>n. thr s' ! t \<noteq> Publishing n)
              | Spinning n \<Rightarrow> (\<forall>m k. thr s' ! t \<noteq> Writing m k) \<and> (\<forall>m. thr s' ! t \<noteq> Publishing m)
              | Writing n k \<Rightarrow> thr s' ! t = (if k < 10 then Writing n (k + 1) else Publishing n)
              | Publishing n \<Rightarrow> thr s' ! t = Ret_recorded n
              | _ \<Rightarrow> False)"
    then have t: "t < length (thr s)" and nr: "\<not> returned (thr s ! t)"
      and h: "history s' = history s @ [(t, thr s ! t)]"
      by simp_all
    from inv have A: "\<And>u m. (u, Publishing m) \<in> set (history s) \<Longrightarrow> u < length (thr s) \<and> recorded (thr s ! u)"
      and B': "\<And>u n j. u < length (thr s) \<Longrightarrow> thr s ! u = Publishing n \<Longrightarrow> j < 11 \<Longrightarrow> (u, Writing n j) \<in> set (history s)"
      unfolding history_inv_def by blast+
    have nrec: "\<not> recorded (thr s ! t)" using nr by (auto simp: returned_def recorded_def split: location.splits)
    have nopub: "(t, Publishing m) \<notin> set (history s)" for m using A[of t m] nrec by blast
    show ?thesis unfolding ordered_history_def
    proof (intro allI impI)
      fix xs ys u n
      assume eq: "history s' = xs @ (u, Publishing n) # ys"
      then have "history s @ [(t, thr s ! t)] = xs @ (u, Publishing n) # ys" using h by simp
      then consider (last) "ys = []" "history s = xs" "(t, thr s ! t) = (u, Publishing n)"
        | (earlier) ys' where "ys = ys' @ [(t, thr s ! t)]" "history s = xs @ (u, Publishing n) # ys'"
        unfolding snoc_eq_split by blast
      then show "(\<forall>k<11. (u, Writing n k) \<in> set xs) \<and>
           (\<forall>m. (u, Publishing m) \<notin> set xs \<and> (u, Publishing m) \<notin> set ys)"
      proof cases
        case last
        then have ut: "u = t" "thr s ! t = Publishing n" by auto
        have "\<forall>k<11. (u, Writing n k) \<in> set xs" using B'[OF t ut(2)] last(2) ut(1) by simp
        moreover have "\<forall>m. (u, Publishing m) \<notin> set xs" using nopub last(2) ut(1) by simp
        ultimately show ?thesis using last(1) by simp
      next
        case earlier
        from ord earlier(2) have o: "\<forall>k<11. (u, Writing n k) \<in> set xs"
          "\<forall>m. (u, Publishing m) \<notin> set xs \<and> (u, Publishing m) \<notin> set ys'"
          unfolding ordered_history_def by blast+
        have "(u, Publishing n) \<in> set (history s)" using earlier(2) by simp
        with nopub have "u \<noteq> t" by blast
        with o earlier(1) show ?thesis by simp
      qed
    qed
  qed
qed

subsection \<open>A null buffer\<close>

lemma null_step:
  assumes "assertions_data L = Nullptr"
    and "\<forall>i<length (thr u). thr u ! i = Entry \<or> thr u ! i = Ret_disabled"
  shows "sys_step L t u =
           Inr (if t < length (thr u) \<and> thr u ! t = Entry
                then \<lparr>mem = mem u, thr = (thr u)[t := Ret_disabled],
                      history = history u @ [(t, Entry)]\<rparr>
                else u)"
proof (cases "t < length (thr u)")
  case False
  then show ?thesis by (simp add: sys_step_def)
next
  case True
  with assms(2) have "thr u ! t = Entry \<or> thr u ! t = Ret_disabled" by blast
  then show ?thesis
    using True assms(1) by (auto simp: sys_step_def thread_step_def returned_def)
qed

lemma null_run:
  assumes "assertions_data L = Nullptr"
    and "\<forall>i<length (thr u). thr u ! i = Entry \<or> thr u ! i = Ret_disabled"
  shows "\<exists>s. run L sched u = Inr s \<and> mem s = mem u \<and> length (thr s) = length (thr u)
           \<and> (\<forall>i<length (thr u). thr s ! i = (if i \<in> set sched then Ret_disabled else thr u ! i))"
  using assms(2)
proof (induction sched arbitrary: u)
  case Nil
  then show ?case by simp
next
  case (Cons t ts)
  let ?u' = "if t < length (thr u) \<and> thr u ! t = Entry
             then \<lparr>mem = mem u, thr = (thr u)[t := Ret_disabled], history = history u @ [(t, Entry)]\<rparr>
             else u"
  have st: "sys_step L t u = Inr ?u'" using null_step[OF assms(1) Cons.prems] .
  have len: "length (thr ?u') = length (thr u)" and m: "mem ?u' = mem u" by simp_all
  have shape: "\<forall>i<length (thr ?u'). thr ?u' ! i = Entry \<or> thr ?u' ! i = Ret_disabled"
    using Cons.prems by (auto simp: nth_list_update)
  from Cons.IH[OF shape] obtain s where s: "run L ts ?u' = Inr s" "mem s = mem ?u'"
    "length (thr s) = length (thr ?u')"
    "\<forall>i<length (thr ?u'). thr s ! i = (if i \<in> set ts then Ret_disabled else thr ?u' ! i)"
    by blast
  have "run L (t # ts) u = Inr s" using st s(1) by simp
  moreover have "\<forall>i<length (thr u). thr s ! i = (if i \<in> set (t # ts) then Ret_disabled else thr u ! i)"
  proof (intro allI impI)
    fix i assume i: "i < length (thr u)"
    with s(4) have e: "thr s ! i = (if i \<in> set ts then Ret_disabled else thr ?u' ! i)" by simp
    from Cons.prems i have c: "thr u ! i = Entry \<or> thr u ! i = Ret_disabled" by blast
    show "thr s ! i = (if i \<in> set (t # ts) then Ret_disabled else thr u ! i)"
      using e c i by (auto simp: nth_list_update)
  qed
  ultimately show ?case using s(2,3) by auto
qed

lemma null_threads:
  assumes "assertions_data L = Nullptr" and "run L sched (init_sys L T) = Inr s"
  shows "mem s = mem (init_sys L T) \<and> length (thr s) = T
       \<and> (\<forall>i<T. thr s ! i = Entry \<or> thr s ! i = Ret_disabled)"
proof -
  let ?u = "init_sys L T"
  have sh: "\<forall>i<length (thr ?u). thr ?u ! i = Entry \<or> thr ?u ! i = Ret_disabled"
    by (simp add: init_sys_def)
  from null_run[OF assms(1) sh, of sched] obtain s' where s': "run L sched ?u = Inr s'"
    "mem s' = mem ?u" "length (thr s') = length (thr ?u)"
    "\<forall>i<length (thr ?u). thr s' ! i = (if i \<in> set sched then Ret_disabled else thr ?u ! i)"
    by blast
  from s'(1) assms(2) have e: "s' = s" by simp
  have l: "length (thr ?u) = T" by (simp add: init_sys_def)
  have "\<forall>i<T. thr s ! i = Entry \<or> thr s ! i = Ret_disabled"
  proof (intro allI impI)
    fix i assume i: "i < T"
    with s'(4) l e have "thr s ! i = (if i \<in> set sched then Ret_disabled else thr ?u ! i)" by simp
    with i show "thr s ! i = Entry \<or> thr s ! i = Ret_disabled" by (simp add: init_sys_def)
  qed
  with s'(2,3) e l show ?thesis by simp
qed

subsection \<open>Published records\<close>

lemma after_writes_complete:
  assumes "after_writes N 11 a = Inr self"
  shows "complete_record N a self"
proof -
  have e: "(11::nat) = Suc (Suc (Suc (Suc (Suc (Suc (Suc (Suc (Suc (Suc (Suc 0))))))))))"
    by simp
  obtain bx bw bz where b: "block_id0 a = Dim3 bx bw bz" by (cases "block_id0 a")
  obtain tx ty tz where t: "thread_id0 a = Dim3 tx ty tz" by (cases "thread_id0 a")
  from assms show ?thesis
    unfolding e
    by (auto simp: write_field_def complete_record_def zero_record_def b t split: sum.splits)
qed

lemma slot_init: "slot_inv L (init_sys L T)"
  by (auto simp: slot_inv_def init_sys_def zero_buffer_def calls_def called_def nid_of_def)

lemma slot_step:
  assumes buf: "assertions_data L = Buffer" and len: "length (thr s) \<le> 2 ^ 32"
    and step: "sys_step L t s = Inr s'" and inv: "slot_inv L s"
  shows "slot_inv L s'"
proof -
  let ?C = "ASSERTION_COUNT L" and ?N = "MAX_STR_LEN L"
  from inv have cnt: "assertion_count (mem s) = of_nat (calls s)"
    and alen: "length (assertions (mem s)) = ?C"
    and zero: "\<And>i. calls s \<le> i \<Longrightarrow> i < ?C \<Longrightarrow> assertions (mem s) ! i = zero_record ?N"
    and below: "\<And>u n. u < length (thr s) \<Longrightarrow> nid_of (thr s ! u) = Some n \<Longrightarrow> unat n < calls s"
    and dist: "\<And>u u' n. u < length (thr s) \<Longrightarrow> u' < length (thr s) \<Longrightarrow>
                 nid_of (thr s ! u) = Some n \<Longrightarrow> nid_of (thr s ! u') = Some n \<Longrightarrow> u = u'"
    and wr: "\<And>u n k. u < length (thr s) \<Longrightarrow> thr s ! u = Writing n k \<Longrightarrow>
               k \<le> 10 \<and> (unat n < ?C \<longrightarrow>
                 after_writes ?N k (call_args L u) = Inr (assertions (mem s) ! unat n))"
    and fin: "\<And>u n. u < length (thr s) \<Longrightarrow> thr s ! u = Publishing n \<or> thr s ! u = Ret_recorded n \<Longrightarrow>
               unat n < ?C \<and> after_writes ?N 11 (call_args L u) = Inr (assertions (mem s) ! unat n)"
    unfolding slot_inv_def by blast+
  from step show ?thesis
  proof (cases rule: sys_step_cases)
    case idle
    with inv show ?thesis by simp
  next
    case disabled
    with buf show ?thesis by simp
  next
    case spin_enter
    note tl = spin_enter(1)
    have c: "calls s < 2 ^ 32" using calls_less[OF spin_enter(1,2)] len by simp
    have u: "unat (assertion_count (mem s)) = calls s" using unat_count[OF cnt c] .
    have 1: "calls s' = Suc (calls s)"
      using spin_enter by (simp add: calls_def count_update_gain called_def)
    have th: "thr s' = (thr s)[t := Spinning (assertion_count (mem s))]"
      and me: "mem s' = (mem s)\<lparr>assertion_count := assertion_count (mem s) + 1\<rparr>"
      using spin_enter by simp_all
    have nid: "\<And>i n. i < length (thr s) \<Longrightarrow> nid_of (thr s' ! i) = Some n \<Longrightarrow>
        (i = t \<and> n = assertion_count (mem s)) \<or> (i \<noteq> t \<and> nid_of (thr s ! i) = Some n)"
      unfolding th using tl by (auto simp: nth_list_update nid_of_def split: if_splits)
    show ?thesis unfolding slot_inv_def
    proof (intro conjI allI impI)
      show "assertion_count (mem s') = word_of_nat (calls s')" using cnt 1 me by simp
      show "length (assertions (mem s')) = ?C" using alen me by simp
    next
      fix i assume "calls s' \<le> i \<and> i < ?C"
      then show "assertions (mem s') ! i = zero_record ?N" using zero[of i] 1 me by simp
    next
      fix i n assume "i < length (thr s') \<and> nid_of (thr s' ! i) = Some n"
      then show "unat n < calls s'" using nid[of i n] below[of i n] u 1 th by auto
    next
      fix i i' n
      assume a: "i < length (thr s') \<and> i' < length (thr s') \<and> nid_of (thr s' ! i) = Some n
                 \<and> nid_of (thr s' ! i') = Some n"
      then show "i = i'"
        using nid[of i n] nid[of i' n] below[of i n] below[of i' n] dist[of i i' n] u th
        by auto
    next
      fix i n k assume a: "i < length (thr s') \<and> thr s' ! i = Writing n k"
      then have "i \<noteq> t" "thr s ! i = Writing n k" "i < length (thr s)"
        unfolding th using tl by (auto simp: nth_list_update split: if_splits)
      then show "k \<le> 10" using wr[of i n k] by simp
    next
      fix i n k assume a: "i < length (thr s') \<and> thr s' ! i = Writing n k" and "unat n < ?C"
      then have "i \<noteq> t" "thr s ! i = Writing n k" "i < length (thr s)"
        unfolding th using tl by (auto simp: nth_list_update split: if_splits)
      then show "after_writes ?N k (call_args L i) = Inr (assertions (mem s') ! unat n)"
        using wr[of i n k] \<open>unat n < ?C\<close> me by simp
    next
      fix i n assume a: "i < length (thr s') \<and> (thr s' ! i = Publishing n \<or> thr s' ! i = Ret_recorded n)"
      then have "i \<noteq> t" "thr s ! i = Publishing n \<or> thr s ! i = Ret_recorded n" "i < length (thr s)"
        unfolding th using tl by (auto simp: nth_list_update split: if_splits)
      then show "unat n < ?C" using fin[of i n] by simp
    next
      fix i n assume a: "i < length (thr s') \<and> (thr s' ! i = Publishing n \<or> thr s' ! i = Ret_recorded n)"
      then have "i \<noteq> t" "thr s ! i = Publishing n \<or> thr s ! i = Ret_recorded n" "i < length (thr s)"
        unfolding th using tl by (auto simp: nth_list_update split: if_splits)
      then show "after_writes ?N 11 (call_args L i) = Inr (assertions (mem s') ! unat n)"
        using fin[of i n] me by simp
    qed
  next
    case write_enter
    note tl = write_enter(1)
    have c: "calls s < 2 ^ 32" using calls_less[OF write_enter(1,2)] len by simp
    have u: "unat (assertion_count (mem s)) = calls s" using unat_count[OF cnt c] .
    have 1: "calls s' = Suc (calls s)"
      using write_enter by (simp add: calls_def count_update_gain called_def)
    have th: "thr s' = (thr s)[t := Writing (assertion_count (mem s)) 0]"
      and me: "mem s' = (mem s)\<lparr>assertion_count := assertion_count (mem s) + 1\<rparr>"
      using write_enter by simp_all
    have nid: "\<And>i n. i < length (thr s) \<Longrightarrow> nid_of (thr s' ! i) = Some n \<Longrightarrow>
        (i = t \<and> n = assertion_count (mem s)) \<or> (i \<noteq> t \<and> nid_of (thr s ! i) = Some n)"
      unfolding th using tl by (auto simp: nth_list_update nid_of_def split: if_splits)
    show ?thesis unfolding slot_inv_def
    proof (intro conjI allI impI)
      show "assertion_count (mem s') = word_of_nat (calls s')" using cnt 1 me by simp
      show "length (assertions (mem s')) = ?C" using alen me by simp
    next
      fix i assume "calls s' \<le> i \<and> i < ?C"
      then show "assertions (mem s') ! i = zero_record ?N" using zero[of i] 1 me by simp
    next
      fix i n assume "i < length (thr s') \<and> nid_of (thr s' ! i) = Some n"
      then show "unat n < calls s'" using nid[of i n] below[of i n] u 1 th by auto
    next
      fix i i' n
      assume a: "i < length (thr s') \<and> i' < length (thr s') \<and> nid_of (thr s' ! i) = Some n
                 \<and> nid_of (thr s' ! i') = Some n"
      then show "i = i'"
        using nid[of i n] nid[of i' n] below[of i n] below[of i' n] dist[of i i' n] u th
        by auto
    next
      fix i n k assume a: "i < length (thr s') \<and> thr s' ! i = Writing n k"
      then have "(i = t \<and> k = 0) \<or> (i \<noteq> t \<and> thr s ! i = Writing n k \<and> i < length (thr s))"
        unfolding th using tl by (auto simp: nth_list_update split: if_splits)
      then show "k \<le> 10" using wr[of i n k] by auto
    next
      fix i n k assume a: "i < length (thr s') \<and> thr s' ! i = Writing n k" and nC: "unat n < ?C"
      then consider "i = t" "k = 0" "n = assertion_count (mem s)"
        | "i \<noteq> t" "thr s ! i = Writing n k" "i < length (thr s)"
        unfolding th using tl by (auto simp: nth_list_update split: if_splits)
      then show "after_writes ?N k (call_args L i) = Inr (assertions (mem s') ! unat n)"
      proof cases
        case 1
        then have "assertions (mem s) ! unat n = zero_record ?N" using zero[of "unat n"] u nC by simp
        with 1 me show ?thesis by simp
      next
        case 2
        then show ?thesis using wr[of i n k] nC me by simp
      qed
    next
      fix i n assume a: "i < length (thr s') \<and> (thr s' ! i = Publishing n \<or> thr s' ! i = Ret_recorded n)"
      then have "i \<noteq> t" "thr s ! i = Publishing n \<or> thr s ! i = Ret_recorded n" "i < length (thr s)"
        unfolding th using tl by (auto simp: nth_list_update split: if_splits)
      then show "unat n < ?C" using fin[of i n] by simp
    next
      fix i n assume a: "i < length (thr s') \<and> (thr s' ! i = Publishing n \<or> thr s' ! i = Ret_recorded n)"
      then have "i \<noteq> t" "thr s ! i = Publishing n \<or> thr s ! i = Ret_recorded n" "i < length (thr s)"
        unfolding th using tl by (auto simp: nth_list_update split: if_splits)
      then show "after_writes ?N 11 (call_args L i) = Inr (assertions (mem s') ! unat n)"
        using fin[of i n] me by simp
    qed
  next
    case (spin_stay n0)
    then have "thr s' = thr s" "mem s' = mem s" by (simp_all add: list_update_same_conv)
    with inv show ?thesis by (simp add: slot_inv_def calls_def)
  next
    case (spin_exit n0)
    note tl = spin_exit(1)
    have 1: "calls s' = calls s"
      using spin_exit by (simp add: calls_def count_update_same called_def)
    have th: "thr s' = (thr s)[t := Ret_dropped n0]" and me: "mem s' = mem s"
      using spin_exit by simp_all
    have len': "length (thr s') = length (thr s)" unfolding th by simp
    have nid: "\<And>i n. i < length (thr s) \<Longrightarrow> nid_of (thr s' ! i) = nid_of (thr s ! i)"
      unfolding th using spin_exit(2) tl by (auto simp: nth_list_update nid_of_def)
    have loc: "\<And>i l. i < length (thr s) \<Longrightarrow> thr s' ! i = l \<Longrightarrow> in_flight l \<or> recorded l \<Longrightarrow> thr s ! i = l"
      unfolding th using tl by (auto simp: nth_list_update in_flight_def recorded_def split: if_splits)
    show ?thesis unfolding slot_inv_def 1 me
    proof (intro conjI allI impI)
      show "assertion_count (mem s) = word_of_nat (calls s)" by (fact cnt)
      show "length (assertions (mem s)) = ?C" by (fact alen)
    next
      fix i assume "calls s \<le> i \<and> i < ?C"
      then show "assertions (mem s) ! i = zero_record ?N" using zero by simp
    next
      fix i n assume "i < length (thr s') \<and> nid_of (thr s' ! i) = Some n"
      then have "i < length (thr s)" "nid_of (thr s ! i) = Some n" using nid[of i] len' by simp_all
      then show "unat n < calls s" by (rule below)
    next
      fix i i' n
      assume "i < length (thr s') \<and> i' < length (thr s') \<and> nid_of (thr s' ! i) = Some n
                 \<and> nid_of (thr s' ! i') = Some n"
      then have "i < length (thr s)" "i' < length (thr s)" "nid_of (thr s ! i) = Some n"
          "nid_of (thr s ! i') = Some n"
        using nid[of i] nid[of i'] len' by simp_all
      then show "i = i'" by (rule dist)
    next
      fix i n k assume a: "i < length (thr s') \<and> thr s' ! i = Writing n k"
      then have "thr s ! i = Writing n k" "i < length (thr s)"
        using loc[of i "Writing n k"] th by (simp_all add: in_flight_def)
      then show "k \<le> 10" using wr[of i n k] by simp
    next
      fix i n k assume a: "i < length (thr s') \<and> thr s' ! i = Writing n k" and nC: "unat n < ?C"
      then have "thr s ! i = Writing n k" "i < length (thr s)"
        using loc[of i "Writing n k"] th by (simp_all add: in_flight_def)
      then show "after_writes ?N k (call_args L i) = Inr (assertions (mem s) ! unat n)"
        using wr[of i n k] nC by simp
    next
      fix i n assume a: "i < length (thr s') \<and> (thr s' ! i = Publishing n \<or> thr s' ! i = Ret_recorded n)"
      then have "thr s ! i = Publishing n \<or> thr s ! i = Ret_recorded n" "i < length (thr s)"
        using loc[of i "Publishing n"] loc[of i "Ret_recorded n"] th
        by (auto simp: in_flight_def recorded_def)
      then show "unat n < ?C" using fin[of i n] by simp
    next
      fix i n assume a: "i < length (thr s') \<and> (thr s' ! i = Publishing n \<or> thr s' ! i = Ret_recorded n)"
      then have "thr s ! i = Publishing n \<or> thr s ! i = Ret_recorded n" "i < length (thr s)"
        using loc[of i "Publishing n"] loc[of i "Ret_recorded n"] th
        by (auto simp: in_flight_def recorded_def)
      then show "after_writes ?N 11 (call_args L i) = Inr (assertions (mem s) ! unat n)"
        using fin[of i n] by simp
    qed
  next
    case (write_slot n0 k0 self)
    note tl = write_slot(1)
    have 1: "calls s' = calls s"
      using write_slot by (simp add: calls_def count_update_same called_def)
    have th: "thr s' = (thr s)[t := (if k0 < 10 then Writing n0 (k0 + 1) else Publishing n0)]"
      and asl: "assertions (mem s') = (assertions (mem s))[unat n0 := self]"
      and ct: "assertion_count (mem s') = assertion_count (mem s)"
      using write_slot by simp_all
    have len': "length (thr s') = length (thr s)" unfolding th by simp
    have n0C: "unat n0 < ?C" using write_slot(3) alen by simp
    have k0: "k0 \<le> 10"
      and aw0: "after_writes ?N k0 (call_args L t) = Inr (assertions (mem s) ! unat n0)"
      using wr[OF write_slot(1,2)] n0C by simp_all
    have aw1: "after_writes ?N (Suc k0) (call_args L t) = Inr self"
      using aw0 write_slot(4) by simp
    have nt: "nid_of (thr s ! t) = Some n0" using write_slot(2) by (simp add: nid_of_def)
    have nid: "\<And>i. i < length (thr s) \<Longrightarrow> nid_of (thr s' ! i) = nid_of (thr s ! i)"
      unfolding th using write_slot(2) tl by (auto simp: nth_list_update nid_of_def)
    have other: "unat n \<noteq> unat n0" if "i < length (thr s)" "i \<noteq> t" "nid_of (thr s ! i) = Some n" for i n
    proof
      assume "unat n = unat n0"
      then have "n = n0" by (simp add: word_unat_eq_iff)
      with dist[OF that(1) write_slot(1) that(3)] nt that(2) show False by simp
    qed
    show ?thesis unfolding slot_inv_def 1 ct asl
    proof (intro conjI allI impI)
      show "assertion_count (mem s) = word_of_nat (calls s)" by (fact cnt)
      show "length ((assertions (mem s))[unat n0 := self]) = ?C" using alen by simp
    next
      fix i assume a: "calls s \<le> i \<and> i < ?C"
      have "unat n0 < calls s" using below[OF write_slot(1) nt] .
      with a have "i \<noteq> unat n0" by simp
      then show "(assertions (mem s))[unat n0 := self] ! i = zero_record ?N" using zero[of i] a by simp
    next
      fix i n assume "i < length (thr s') \<and> nid_of (thr s' ! i) = Some n"
      then have "i < length (thr s)" "nid_of (thr s ! i) = Some n" using nid[of i] len' by simp_all
      then show "unat n < calls s" by (rule below)
    next
      fix i i' n
      assume "i < length (thr s') \<and> i' < length (thr s') \<and> nid_of (thr s' ! i) = Some n
                 \<and> nid_of (thr s' ! i') = Some n"
      then have "i < length (thr s)" "i' < length (thr s)" "nid_of (thr s ! i) = Some n"
          "nid_of (thr s ! i') = Some n"
        using nid[of i] nid[of i'] len' by simp_all
      then show "i = i'" by (rule dist)
    next
      fix i n k assume a: "i < length (thr s') \<and> thr s' ! i = Writing n k"
      then have "(i = t \<and> k = Suc k0 \<and> k0 < 10) \<or> (i \<noteq> t \<and> thr s ! i = Writing n k \<and> i < length (thr s))"
        unfolding th using tl by (auto simp: nth_list_update split: if_splits)
      then show "k \<le> 10" using wr[of i n k] by auto
    next
      fix i n k assume a: "i < length (thr s') \<and> thr s' ! i = Writing n k" and nC: "unat n < ?C"
      then consider "i = t" "k = Suc k0" "n = n0"
        | "i \<noteq> t" "thr s ! i = Writing n k" "i < length (thr s)"
        unfolding th using tl by (auto simp: nth_list_update split: if_splits)
      then show "after_writes ?N k (call_args L i) = Inr ((assertions (mem s))[unat n0 := self] ! unat n)"
      proof cases
        case 1
        then show ?thesis using aw1 n0C alen by simp
      next
        case 2
        then have "unat n \<noteq> unat n0" using other[of i n] by (simp add: nid_of_def)
        then show ?thesis using wr[OF 2(3,2)] nC by simp
      qed
    next
      fix i n assume a: "i < length (thr s') \<and> (thr s' ! i = Publishing n \<or> thr s' ! i = Ret_recorded n)"
      then consider "i = t" "n = n0"
        | "i \<noteq> t" "thr s ! i = Publishing n \<or> thr s ! i = Ret_recorded n" "i < length (thr s)"
        unfolding th using tl by (auto simp: nth_list_update split: if_splits)
      then show "unat n < ?C" using fin[of i n] n0C by cases simp_all
    next
      fix i n assume a: "i < length (thr s') \<and> (thr s' ! i = Publishing n \<or> thr s' ! i = Ret_recorded n)"
      then consider "i = t" "n = n0" "\<not> k0 < 10"
        | "i \<noteq> t" "thr s ! i = Publishing n \<or> thr s ! i = Ret_recorded n" "i < length (thr s)"
        unfolding th using tl by (auto simp: nth_list_update split: if_splits)
      then show "after_writes ?N 11 (call_args L i) = Inr ((assertions (mem s))[unat n0 := self] ! unat n)"
      proof cases
        case 1
        with k0 have "Suc k0 = 11" by simp
        with aw1 1 n0C alen show ?thesis by simp
      next
        case 2
        then have "unat n \<noteq> unat n0" using other[of i n] by (auto simp: nid_of_def)
        then show ?thesis using fin[OF 2(3,2)] by simp
      qed
    qed
  next
    case (publish n0)
    note tl = publish(1)
    have 1: "calls s' = calls s"
      using publish by (simp add: calls_def count_update_same called_def)
    have th: "thr s' = (thr s)[t := Ret_recorded n0]"
      and asl: "assertions (mem s') = assertions (mem s)"
      and ct: "assertion_count (mem s') = assertion_count (mem s)"
      using publish by simp_all
    have len': "length (thr s') = length (thr s)" unfolding th by simp
    have nid: "\<And>i. i < length (thr s) \<Longrightarrow> nid_of (thr s' ! i) = nid_of (thr s ! i)"
      unfolding th using publish(2) tl by (auto simp: nth_list_update nid_of_def)
    show ?thesis unfolding slot_inv_def 1 ct asl
    proof (intro conjI allI impI)
      show "assertion_count (mem s) = word_of_nat (calls s)" by (fact cnt)
      show "length (assertions (mem s)) = ?C" by (fact alen)
    next
      fix i assume "calls s \<le> i \<and> i < ?C"
      then show "assertions (mem s) ! i = zero_record ?N" using zero by simp
    next
      fix i n assume "i < length (thr s') \<and> nid_of (thr s' ! i) = Some n"
      then have "i < length (thr s)" "nid_of (thr s ! i) = Some n" using nid[of i] len' by simp_all
      then show "unat n < calls s" by (rule below)
    next
      fix i i' n
      assume "i < length (thr s') \<and> i' < length (thr s') \<and> nid_of (thr s' ! i) = Some n
                 \<and> nid_of (thr s' ! i') = Some n"
      then have "i < length (thr s)" "i' < length (thr s)" "nid_of (thr s ! i) = Some n"
          "nid_of (thr s ! i') = Some n"
        using nid[of i] nid[of i'] len' by simp_all
      then show "i = i'" by (rule dist)
    next
      fix i n k assume a: "i < length (thr s') \<and> thr s' ! i = Writing n k"
      then have "i \<noteq> t" "thr s ! i = Writing n k" "i < length (thr s)"
        unfolding th using tl by (auto simp: nth_list_update split: if_splits)
      then show "k \<le> 10" using wr[of i n k] by simp
    next
      fix i n k assume a: "i < length (thr s') \<and> thr s' ! i = Writing n k" and nC: "unat n < ?C"
      then have "i \<noteq> t" "thr s ! i = Writing n k" "i < length (thr s)"
        unfolding th using tl by (auto simp: nth_list_update split: if_splits)
      then show "after_writes ?N k (call_args L i) = Inr (assertions (mem s) ! unat n)"
        using wr[of i n k] nC by simp
    next
      fix i n assume a: "i < length (thr s') \<and> (thr s' ! i = Publishing n \<or> thr s' ! i = Ret_recorded n)"
      then have "(i = t \<and> n = n0) \<or> (i \<noteq> t \<and> (thr s ! i = Publishing n \<or> thr s ! i = Ret_recorded n))"
        and "i < length (thr s)"
        unfolding th using tl by (auto simp: nth_list_update split: if_splits)
      then show "unat n < ?C" using fin[of i n] publish(1,2) by auto
    next
      fix i n assume a: "i < length (thr s') \<and> (thr s' ! i = Publishing n \<or> thr s' ! i = Ret_recorded n)"
      then have "(i = t \<and> n = n0) \<or> (i \<noteq> t \<and> (thr s ! i = Publishing n \<or> thr s ! i = Ret_recorded n))"
        and "i < length (thr s)"
        unfolding th using tl by (auto simp: nth_list_update split: if_splits)
      then show "after_writes ?N 11 (call_args L i) = Inr (assertions (mem s) ! unat n)"
        using fin[of i n] publish(1,2) by auto
    qed
  qed
qed

lemma step_keeps_threads:
  assumes "sys_step L t s = Inr s'"
  shows "length (thr s') = length (thr s)"
  using assms by (cases rule: sys_step_cases) simp_all

lemma slot_run:
  assumes "assertions_data L = Buffer" and "T \<le> 2 ^ 32"
    and "run L sched (init_sys L T) = Inr s"
  shows "slot_inv L s \<and> length (thr s) = T"
proof -
  let ?P = "\<lambda>u. slot_inv L u \<and> length (thr u) = T"
  show "?P s"
  proof (rule run_invariant[OF assms(3), of ?P])
    show "?P (init_sys L T)" using slot_init[of L T] by (simp add: init_sys_def)
  next
    fix t u u'
    assume u: "?P u" and st: "sys_step L t u = Inr u'"
    have "length (thr u) \<le> 2 ^ 32" using u assms(2) by simp
    from slot_step[OF assms(1) this st] u step_keeps_threads[OF st]
    show "?P u'" by simp
  qed
qed

text \<open>
  In a launch of at most \<open>2 ^ 32\<close> threads, a slot whose index no call has reserved
  yet is still zero.
\<close>

lemma unreserved_slot_is_zero:
  assumes "assertions_data L = Buffer" and "T \<le> 2 ^ 32"
    and "run L sched (init_sys L T) = Inr s" and "calls s \<le> i" and "i < ASSERTION_COUNT L"
  shows "assertions (mem s) ! i = zero_record (MAX_STR_LEN L)"
  using slot_run[OF assms(1-3)] assms(4,5) unfolding slot_inv_def by blast

text \<open>
  The check of line 46 lets the index \<open>C\<close> through, for any capacity \<open>C\<close>: the thread
  that reserves it goes on to line 65, where the access is out of bounds.
\<close>

lemma index_at_capacity_passes_check:
  assumes "unat (assertion_count d) = C" and "length (assertions d) = C"
  shows "thread_step N C Buffer a d Entry
           = Inr (d\<lparr>assertion_count := assertion_count d + 1\<rparr>, Writing (assertion_count d) 0)
       \<and> thread_step N C Buffer a (d\<lparr>assertion_count := assertion_count d + 1\<rparr>)
             (Writing (assertion_count d) 0) = Inl Out_of_bounds"
  using assms by (simp add: thread_step_def Let_def)

subsection \<open>Claims about dsa_add_new_assertion_failure\<close>

text \<open>
  C1. The claim: the reserved index \<open>nid\<close> is checked against the capacity before the
  array is dereferenced, so that no slot at an index at or above the capacity is ever
  accessed. The check of line 46 is \<open>nid > C\<close>, so the index \<open>nid = C\<close> passes it and
  line 65 dereferences \<open>assertions[C]\<close>, one past the last slot. With capacity 2, two
  threads record their failures in slots 0 and 1; the third thread reserves index 2, is
  not sent to the overflow branch, and its first write is out of bounds.
\<close>

theorem slot_at_capacity_is_dereferenced:
  "outcome (run (example_launch 2 Buffer) (replicate 13 0 @ replicate 13 1 @ [2])
              (init_sys (example_launch 2 Buffer) 3))
     = Inr (3, 2, [Ret_recorded 0, Ret_recorded 1, Writing 2 0])
   \<and> outcome (run (example_launch 2 Buffer) (replicate 13 0 @ replicate 13 1 @ [2, 2])
              (init_sys (example_launch 2 Buffer) 3))
     = Inl Out_of_bounds"
  by code_simp

text \<open>
  C4. The claim: of \<open>N > C\<close> calls on a zero-initialised buffer exactly \<open>C\<close> fill a
  slot, \<open>assertion_failure_written\<close> ends at \<open>C\<close>, and the other \<open>N - C\<close> calls write
  nothing. With capacity 4 and six threads, four threads fill slots 0 to 3 and the
  written counter reaches 4; the fifth thread, with index 4, is not among the dropped
  ones: it is about to write, and that write is out of bounds. Only the sixth thread is
  in the overflow branch.
\<close>

theorem six_failures_on_four_slots:
  "outcome (run (example_launch 4 Buffer)
              (replicate 13 0 @ replicate 13 1 @ replicate 13 2 @ replicate 13 3 @ [4, 5, 5, 5])
              (init_sys (example_launch 4 Buffer) 6))
     = Inr (6, 4, [Ret_recorded 0, Ret_recorded 1, Ret_recorded 2, Ret_recorded 3,
                   Writing 4 0, Spinning 5])
   \<and> outcome (run (example_launch 4 Buffer)
              (replicate 13 0 @ replicate 13 1 @ replicate 13 2 @ replicate 13 3 @ [4, 5, 5, 5, 4])
              (init_sys (example_launch 4 Buffer) 6))
     = Inl Out_of_bounds"
  by code_simp

text \<open>
  C5. The claim: the loop of lines 58 to 60 terminates, because the threads that hold a
  valid slot eventually bring \<open>assertion_failure_written\<close> up to \<open>assertion_count\<close>.
  In a launch of fewer than \<open>2 ^ 32\<close> threads, in every state that a fault-free run
  reaches from the zero-initialised buffer, a thread that is in the loop stays in it
  whatever steps follow: at most \<open>C + 1\<close> threads pass the check of line 46 and
  increment the written counter, while a thread only enters the loop once the call
  counter is \<open>C + 2\<close> or more.
\<close>

theorem spinning_thread_never_returns:
  assumes "assertions_data L = Buffer" and "T < 2 ^ 32"
    and "run L sched (init_sys L T) = Inr s" and "thr s ! t = Spinning n"
    and "run L sched' s = Inr s'"
  shows "thr s' ! t = Spinning n"
proof -
  have i0: "length (thr (init_sys L T)) \<le> 2 ^ 32" using assms(2) by (simp add: init_sys_def)
  have s: "counting_inv (ASSERTION_COUNT L) s" "length (thr s) = T"
    using counting_run[OF assms(1) i0 assms(3) counting_init] by (simp_all add: init_sys_def)
  let ?P = "\<lambda>u. counting_inv (ASSERTION_COUNT L) u \<and> length (thr u) = T \<and> thr u ! t = Spinning n"
  have "?P s'"
  proof (rule run_invariant[OF assms(5), of ?P])
    show "?P s" using s assms(4) by simp
  next
    fix t' u u'
    assume u: "?P u" and st: "sys_step L t' u = Inr u'"
    have l: "length (thr u) \<le> 2 ^ 32" "length (thr u) < 2 ^ 32" using u assms(2) by simp_all
    from counting_step[OF assms(1) l(1) st] u
    have "counting_inv (ASSERTION_COUNT L) u'" "length (thr u') = T" by simp_all
    moreover have "thr u' ! t = Spinning n"
      using spin_forever_step[OF assms(1) l(2) _ _ st] u by blast
    ultimately show "?P u'" by simp
  qed
  then show ?thesis by simp
qed

theorem spinning_thread_never_returns_witness:
  "\<exists>s s'. run (example_launch 2 Buffer) [0, 1, 2, 3] (init_sys (example_launch 2 Buffer) 4) = Inr s
         \<and> thr s ! 3 = Spinning 3
         \<and> run (example_launch 2 Buffer) (replicate 13 0 @ replicate 13 1 @ [3, 3, 3]) s = Inr s'
         \<and> thr s' ! 3 = Spinning 3
         \<and> outcome (Inr s') = Inr (4, 2, [Ret_recorded 0, Ret_recorded 1, Writing 2 0, Spinning 3])"
proof -
  define L where "L = example_launch 2 Buffer"
  define r where "r = run L [0, 1, 2, 3] (init_sys L 4)"
  have e: "case r of Inl f \<Rightarrow> False
           | Inr s \<Rightarrow> thr s ! 3 = Spinning 3 \<and>
               (case run L (replicate 13 0 @ replicate 13 1 @ [3, 3, 3]) s of
                  Inl f \<Rightarrow> False
                | Inr s' \<Rightarrow> outcome (Inr s') =
                    Inr (4, 2, [Ret_recorded 0, Ret_recorded 1, Writing 2 0, Spinning 3]))"
    unfolding r_def L_def by code_simp
  then obtain s where s: "r = Inr s" "thr s ! 3 = Spinning 3"
    and e2: "case run L (replicate 13 0 @ replicate 13 1 @ [3, 3, 3]) s of
                  Inl f \<Rightarrow> False
                | Inr s' \<Rightarrow> outcome (Inr s') =
                    Inr (4, 2, [Ret_recorded 0, Ret_recorded 1, Writing 2 0, Spinning 3])"
    by (cases r) simp_all
  define r' where "r' = run L (replicate 13 0 @ replicate 13 1 @ [3, 3, 3]) s"
  from e2 obtain s' where s': "r' = Inr s'"
    "outcome (Inr s') = Inr (4, 2, [Ret_recorded 0, Ret_recorded 1, Writing 2 0, Spinning 3])"
    unfolding r'_def[symmetric] by (cases r') simp_all
  have b: "assertions_data L = Buffer" by (simp add: L_def example_launch_def)
  have t: "(4::nat) < 2 ^ 32" by simp
  have "thr s' ! 3 = Spinning 3"
    using spinning_thread_never_returns[OF b t s(1)[unfolded r_def] s(2) s'(1)[unfolded r'_def]] .
  with s s' show ?thesis unfolding r_def r'_def L_def by blast
qed

text \<open>
  C6, as amended. In every run, a thread runs the \<open>atomicAdd\<close> of line 80 only after it
  has run each of the eleven statements of lines 66 to 76, which write the seven fields of
  its record, and it runs line 80 once: in the history, before a step from
  \<open>Publishing n\<close> of thread \<open>t\<close> stand the steps of \<open>t\<close> from \<open>Writing n k\<close> for every
  \<open>k\<close> below 11, and \<open>t\<close> has no other step from a \<open>Publishing\<close> location. In memory,
  for a launch of at most \<open>2 ^ 32\<close> threads (beyond that the 32-bit indices repeat):
  when a thread is about to run line 80 or has run it, its slot lies within the array and
  holds the complete record of its call, all seven fields; two threads that have run
  line 80 have different slots; and \<open>assertion_failure_written\<close> is the number of threads
  that have run line 80, modulo \<open>2 ^ 32\<close>. So the counter tells how many records are
  complete. It does not tell which ones.
\<close>

theorem published_record_fully_written:
  assumes "run L sched (init_sys L T) = Inr s"
  shows "(\<forall>xs ys t n. history s = xs @ (t, Publishing n) # ys \<longrightarrow>
            (\<forall>k<11. (t, Writing n k) \<in> set xs)
          \<and> (\<forall>m. (t, Publishing m) \<notin> set xs \<and> (t, Publishing m) \<notin> set ys))
       \<and> (T \<le> 2 ^ 32 \<longrightarrow>
            (\<forall>t n. t < T \<and> (thr s ! t = Publishing n \<or> thr s ! t = Ret_recorded n) \<longrightarrow>
               unat n < ASSERTION_COUNT L
             \<and> complete_record (MAX_STR_LEN L) (call_args L t) (assertions (mem s) ! unat n))
          \<and> (\<forall>t t' n. t < T \<and> t' < T \<and> thr s ! t = Ret_recorded n
                 \<and> thr s ! t' = Ret_recorded n \<longrightarrow> t = t')
          \<and> assertion_failure_written (mem s) = of_nat (published s))"
proof -
  let ?P = "\<lambda>u. history_inv u \<and> ordered_history (history u)"
  have "?P s"
  proof (rule run_invariant[OF assms, of ?P])
    show "?P (init_sys L T)"
      by (auto simp: history_inv_def ordered_history_def init_sys_def)
  next
    fix t u u'
    assume "?P u" and "sys_step L t u = Inr u'"
    then show "?P u'" using history_step ordered_step by blast
  qed
  then have 1: "\<forall>xs ys t n. history s = xs @ (t, Publishing n) # ys \<longrightarrow>
            (\<forall>k<11. (t, Writing n k) \<in> set xs)
          \<and> (\<forall>m. (t, Publishing m) \<notin> set xs \<and> (t, Publishing m) \<notin> set ys)"
    unfolding ordered_history_def by blast
  have rest: "(\<forall>t n. t < T \<and> (thr s ! t = Publishing n \<or> thr s ! t = Ret_recorded n) \<longrightarrow>
            unat n < ASSERTION_COUNT L
          \<and> complete_record (MAX_STR_LEN L) (call_args L t) (assertions (mem s) ! unat n))
       \<and> (\<forall>t t' n. t < T \<and> t' < T \<and> thr s ! t = Ret_recorded n \<and> thr s ! t' = Ret_recorded n
            \<longrightarrow> t = t')
       \<and> assertion_failure_written (mem s) = of_nat (published s)"
    if bound: "T \<le> 2 ^ 32"
  proof (cases "assertions_data L")
    case Nullptr
    from null_threads[OF Nullptr assms] have m: "mem s = mem (init_sys L T)"
      and l: "length (thr s) = T"
      and th: "\<forall>i<T. thr s ! i = Entry \<or> thr s ! i = Ret_disabled" by simp_all
    have "\<forall>x\<in>set (thr s). \<not> recorded x"
    proof
      fix x assume "x \<in> set (thr s)"
      then obtain i where "i < length (thr s)" "thr s ! i = x" by (auto simp: in_set_conv_nth)
      with th l show "\<not> recorded x" by (auto simp: recorded_def)
    qed
    then have "filter recorded (thr s) = []" by (simp add: filter_empty_conv)
    then have "published s = 0" by (simp add: published_def)
    moreover have "assertion_failure_written (mem s) = 0"
      using m by (simp add: init_sys_def zero_buffer_def)
    ultimately show ?thesis using th by auto
  next
    case Buffer
    from slot_run[OF Buffer bound assms] have i: "slot_inv L s" and l: "length (thr s) = T" by simp_all
    have i0: "length (thr (init_sys L T)) \<le> 2 ^ 32" using bound by (simp add: init_sys_def)
    from counting_run[OF Buffer i0 assms counting_init]
    have w: "assertion_failure_written (mem s) = of_nat (published s)"
      by (simp add: counting_inv_def)
    have 2: "unat n < ASSERTION_COUNT L
          \<and> complete_record (MAX_STR_LEN L) (call_args L t) (assertions (mem s) ! unat n)"
      if "t < T" "thr s ! t = Publishing n \<or> thr s ! t = Ret_recorded n" for t n
    proof -
      from i that l have "unat n < ASSERTION_COUNT L
        \<and> after_writes (MAX_STR_LEN L) 11 (call_args L t) = Inr (assertions (mem s) ! unat n)"
        unfolding slot_inv_def by blast
      then show ?thesis using after_writes_complete by blast
    qed
    have 3: "t = t'"
      if "t < T" "t' < T" "thr s ! t = Ret_recorded n" "thr s ! t' = Ret_recorded n" for t t' n
    proof -
      from that(3,4) have "nid_of (thr s ! t) = Some n" "nid_of (thr s ! t') = Some n"
        by (simp_all add: nid_of_def)
      with i that(1,2) l show ?thesis unfolding slot_inv_def by blast
    qed
    from 2 3 w show ?thesis by blast
  qed
  from 1 rest show ?thesis by blast
qed

theorem published_record_fully_written_witness:
  "\<exists>s. run (example_launch 2 Buffer) (replicate 13 0 @ [1, 1]) (init_sys (example_launch 2 Buffer) 2) = Inr s
      \<and> history s = ((0, Entry) # map (\<lambda>k. (0, Writing 0 k)) [0..<11]) @ (0, Publishing 0)
                       # [(1, Entry), (1, Writing 1 0)]
      \<and> outcome (Inr s) = Inr (2, 1, [Ret_recorded 0, Writing 1 1])
      \<and> (\<forall>k<11. (0::nat, Writing 0 k) \<in> set ((0, Entry) # map (\<lambda>k. (0, Writing 0 k)) [0..<11]))
      \<and> complete_record 8 (example_args 0) (assertions (mem s) ! 0)
      \<and> assertions (mem s) ! 0 =
            \<lparr>assertion_msg = ''x > 0'' @ replicate 3 (CHR 0x00),
             filename = ''k.cu'' @ replicate 4 (CHR 0x00),
             function_name = ''f'' @ replicate 7 (CHR 0x00),
             line_number = 42, caller = 7, block_id = (0, 0, 0), thread_id = (1, 2, 3)\<rparr>
      \<and> assertion_failure_written (mem s) = of_nat (published s)"
proof -
  define L where "L = example_launch 2 Buffer"
  define r where "r = run L (replicate 13 0 @ [1, 1]) (init_sys L 2)"
  have e: "case r of Inl f \<Rightarrow> False
           | Inr s \<Rightarrow>
               history s = ((0, Entry) # map (\<lambda>k. (0, Writing 0 k)) [0..<11]) @ (0, Publishing 0)
                             # [(1, Entry), (1, Writing 1 0)]
             \<and> outcome (Inr s) = Inr (2, 1, [Ret_recorded 0, Writing 1 1])
             \<and> thr s ! 0 = Ret_recorded 0
             \<and> assertions (mem s) ! 0 =
                  \<lparr>assertion_msg = ''x > 0'' @ replicate 3 (CHR 0x00),
                   filename = ''k.cu'' @ replicate 4 (CHR 0x00),
                   function_name = ''f'' @ replicate 7 (CHR 0x00),
                   line_number = 42, caller = 7, block_id = (0, 0, 0), thread_id = (1, 2, 3)\<rparr>"
    unfolding r_def L_def by code_simp
  then obtain s where s: "r = Inr s"
    "history s = ((0, Entry) # map (\<lambda>k. (0, Writing 0 k)) [0..<11]) @ (0, Publishing 0)
                   # [(1, Entry), (1, Writing 1 0)]"
    "outcome (Inr s) = Inr (2, 1, [Ret_recorded 0, Writing 1 1])"
    "thr s ! 0 = Ret_recorded 0"
    "assertions (mem s) ! 0 =
        \<lparr>assertion_msg = ''x > 0'' @ replicate 3 (CHR 0x00),
         filename = ''k.cu'' @ replicate 4 (CHR 0x00),
         function_name = ''f'' @ replicate 7 (CHR 0x00),
         line_number = 42, caller = 7, block_id = (0, 0, 0), thread_id = (1, 2, 3)\<rparr>"
    by (cases r) simp_all
  note run_s = s(1)[unfolded r_def]
  note w = published_record_fully_written[OF run_s]
  have b: "(2::nat) \<le> 2 ^ 32" by simp
  from w[THEN conjunct1] s(2)
  have o: "\<forall>k<11. (0::nat, Writing 0 k) \<in> set ((0, Entry) # map (\<lambda>k. (0, Writing 0 k)) [0..<11])"
    by blast
  from w[THEN conjunct2] b have m:
    "\<forall>t n. t < 2 \<and> (thr s ! t = Publishing n \<or> thr s ! t = Ret_recorded n) \<longrightarrow>
        unat n < ASSERTION_COUNT L
      \<and> complete_record (MAX_STR_LEN L) (call_args L t) (assertions (mem s) ! unat n)"
    and c: "assertion_failure_written (mem s) = of_nat (published s)"
    by blast+
  from m s(4) have "complete_record (MAX_STR_LEN L) (call_args L 0) (assertions (mem s) ! unat (0::u32))"
    by (metis (no_types, lifting) zero_less_numeral)
  then have k: "complete_record 8 (example_args 0) (assertions (mem s) ! 0)"
    by (simp add: L_def example_launch_def)
  show ?thesis
    by (rule exI[of _ s], intro conjI) (fact run_s[unfolded L_def] s(2) s(3) o k s(5) c)+
qed

text \<open>
  The claim as stated, read as the specification reads it (no partially written record
  once the written counter has passed the slot's index), fails: the counter counts
  records in the order in which their writers finish, not in the order of the slots.
  With two threads, thread 0 reserves slot 0 and writes its first field; thread 1 then
  reserves slot 1, writes all of it and runs line 80. The counter is 1, and slot 0, the
  one record a reader of the counter takes as published, has one field of seven.
\<close>

theorem written_count_passes_unfinished_slot:
  "outcome (run (example_launch 2 Buffer) ([0, 0] @ replicate 13 1)
              (init_sys (example_launch 2 Buffer) 2))
     = Inr (2, 1, [Writing 0 1, Ret_recorded 1])
   \<and> slots (run (example_launch 2 Buffer) ([0, 0] @ replicate 13 1)
              (init_sys (example_launch 2 Buffer) 2)) ! 0
     = (zero_record 8)\<lparr>assertion_msg := ''x > 0'' @ replicate 3 (CHR 0x00)\<rparr>
   \<and> \<not> complete_record 8 (example_args 0)
         (slots (run (example_launch 2 Buffer) ([0, 0] @ replicate 13 1)
                   (init_sys (example_launch 2 Buffer) 2)) ! 0)"
  by code_simp

text \<open>
  C7. With a null buffer pointer the call is a no-op. Whatever the memory \<open>d\<close> holds and
  in whatever order the threads step, no run faults, the memory stays \<open>d\<close>, and every
  thread that has stepped is at the return of line 40 after its first step: it is never
  in the loop of lines 58 to 60.
\<close>

theorem null_buffer_is_noop:
  assumes "assertions_data L = Nullptr"
  shows "\<exists>s. run L sched \<lparr>mem = d, thr = replicate T Entry, history = []\<rparr> = Inr s
            \<and> mem s = d \<and> length (thr s) = T
            \<and> (\<forall>t<T. thr s ! t = (if t \<in> set sched then Ret_disabled else Entry))"
proof -
  let ?u = "\<lparr>mem = d, thr = replicate T Entry, history = []\<rparr>"
  have "\<forall>i<length (thr ?u). thr ?u ! i = Entry \<or> thr ?u ! i = Ret_disabled" by simp
  from null_run[OF assms this, of sched] obtain s where s: "run L sched ?u = Inr s"
    "mem s = mem ?u" "length (thr s) = length (thr ?u)"
    "\<forall>i<length (thr ?u). thr s ! i = (if i \<in> set sched then Ret_disabled else thr ?u ! i)"
    by blast
  have "\<forall>t<T. thr s ! t = (if t \<in> set sched then Ret_disabled else Entry)"
  proof (intro allI impI)
    fix t assume "t < T"
    with s(4) show "thr s ! t = (if t \<in> set sched then Ret_disabled else Entry)" by simp
  qed
  with s(1,2,3) show ?thesis by auto
qed

theorem null_buffer_is_noop_witness:
  "\<exists>s. run (example_launch 2 Nullptr) [0, 2, 0]
           \<lparr>mem = zero_buffer 8 2, thr = replicate 3 Entry, history = []\<rparr> = Inr s
      \<and> mem s = zero_buffer 8 2 \<and> length (thr s) = 3
      \<and> (\<forall>t<3. thr s ! t = (if t \<in> set [0, 2, 0] then Ret_disabled else Entry))"
proof -
  have "assertions_data (example_launch 2 Nullptr) = Nullptr" by (simp add: example_launch_def)
  from null_buffer_is_noop[OF this, of "[0, 2, 0]" "zero_buffer 8 2" 3] show ?thesis .
qed

text \<open>
  C8, as amended. After any run from the zero-initialised buffer with a non-null
  pointer, \<open>assertion_count\<close> is the number of calls made so far modulo \<open>2 ^ 32\<close>, so
  exactly that number while it is below \<open>2 ^ 32\<close>, whether or not the calls exceeded the
  capacity. Every step that starts a call adds exactly one to the counter, and no other
  step changes it.
\<close>

theorem assertion_count_counts_calls:
  assumes "assertions_data L = Buffer" and "run L sched (init_sys L T) = Inr s"
  shows "unat (assertion_count (mem s)) = calls s mod 2 ^ 32
       \<and> (\<forall>t u u'. sys_step L t u = Inr u' \<longrightarrow>
             assertion_count (mem u') =
               assertion_count (mem u) + (if t < length (thr u) \<and> thr u ! t = Entry then 1 else 0))"
proof -
  have "assertion_count (mem s) = of_nat (calls s)"
    using count_run[OF assms count_init] .
  then have "unat (assertion_count (mem s)) = calls s mod 2 ^ 32"
    by (simp add: unat_of_nat)
  then show ?thesis using count_increment[OF assms(1)] by blast
qed

theorem assertion_count_counts_calls_witness:
  "\<exists>s. run (example_launch 2 Buffer) [0, 1, 2, 3, 4, 4] (init_sys (example_launch 2 Buffer) 5) = Inr s
      \<and> calls s = 5 \<and> unat (assertion_count (mem s)) = 5
      \<and> outcome (Inr s) = Inr (5, 0, [Writing 0 0, Writing 1 0, Writing 2 0, Spinning 3, Spinning 4])"
proof -
  define L where "L = example_launch 2 Buffer"
  define r where "r = run L [0, 1, 2, 3, 4, 4] (init_sys L 5)"
  have e: "case r of Inl f \<Rightarrow> False
           | Inr s \<Rightarrow> calls s = 5 \<and> outcome (Inr s) =
                 Inr (5, 0, [Writing 0 0, Writing 1 0, Writing 2 0, Spinning 3, Spinning 4])"
    unfolding r_def L_def by code_simp
  then obtain s where s: "r = Inr s" "calls s = 5"
    "outcome (Inr s) = Inr (5, 0, [Writing 0 0, Writing 1 0, Writing 2 0, Spinning 3, Spinning 4])"
    by (cases r) simp_all
  have b: "assertions_data L = Buffer" by (simp add: L_def example_launch_def)
  from assertion_count_counts_calls[OF b s(1)[unfolded r_def]] s(2)
  have "unat (assertion_count (mem s)) = 5" by simp
  with s show ?thesis unfolding r_def L_def by blast
qed

text \<open>
  The claim as stated, that the counter is exactly \<open>N\<close> after \<open>N\<close> calls, fails for
  \<open>N = 2 ^ 32\<close>: the counter has 32 bits and is back at 0.
\<close>

theorem assertion_count_wraps:
  "count_after_calls (example_launch 2 Buffer) 4294967296 = Some (4294967296, 0)"
proof -
  have "assertions_data (example_launch 2 Buffer) = Buffer" by (simp add: example_launch_def)
  from count_after_calls_eq[OF this, of 4294967296]
  have "count_after_calls (example_launch 2 Buffer) 4294967296
          = Some (4294967296, word_of_nat 4294967296)" .
  moreover have "(word_of_nat 4294967296 :: u32) = 0" by simp
  ultimately show ?thesis by (simp only:)
qed

text \<open>
  C10. A step of a thread that leads into the overflow branch or stays in it (its target
  is the loop of lines 58 to 60 or the return of line 62) writes no record and leaves
  \<open>assertion_failure_written\<close> as it is. If it is the first step of the call, the one
  mutation is the increment of \<open>assertion_count\<close>, and the reserved index is above the
  capacity; otherwise the step starts in the overflow branch and changes nothing.
\<close>

theorem overflow_branch_only_reserves:
  assumes "thread_step N C p a d l = Inr (d', l')" and "l' = Spinning n \<or> l' = Ret_dropped n"
  shows "assertions d' = assertions d
       \<and> assertion_failure_written d' = assertion_failure_written d
       \<and> (if l = Entry
          then d' = d\<lparr>assertion_count := assertion_count d + 1\<rparr>
               \<and> n = assertion_count d \<and> C < unat n \<and> l' = Spinning n
          else d' = d \<and> (l = Spinning n \<or> l = Ret_dropped n))"
  using assms
  by (cases l; cases p) (auto simp: thread_step_def Let_def split: if_splits sum.splits)

theorem overflow_branch_only_reserves_witness:
  "thread_step 8 2 Buffer (example_args 0) ((zero_buffer 8 2)\<lparr>assertion_count := 3\<rparr>) Entry
     = Inr ((zero_buffer 8 2)\<lparr>assertion_count := 4\<rparr>, Spinning 3)
   \<and> assertions ((zero_buffer 8 2)\<lparr>assertion_count := 4\<rparr>) = assertions (zero_buffer 8 2)
   \<and> assertion_failure_written ((zero_buffer 8 2)\<lparr>assertion_count := 4\<rparr>) = 0"
proof -
  have e: "thread_step 8 2 Buffer (example_args 0) ((zero_buffer 8 2)\<lparr>assertion_count := 3\<rparr>) Entry
     = Inr ((zero_buffer 8 2)\<lparr>assertion_count := 4\<rparr>, Spinning 3)"
    by (simp add: thread_step_def Let_def)
  have "Spinning 3 = Spinning 3 \<or> Spinning 3 = Ret_dropped (3 :: u32)" by simp
  from overflow_branch_only_reserves[OF e this] e show ?thesis
    by (simp add: zero_buffer_def)
qed

end
